theory Spec2Isabelle
  imports Complex_Main "HOL-Library.Sublist"
begin

section \<open>Exceptions\<close>

text \<open>The exceptions that the modelled code can raise or receive. \<open>RegexError\<close> is
  \<open>re.error\<close>; \<open>CollaboratorError\<close> is any exception raised inside an external
  service (the language pipeline, the summarization model).\<close>

datatype py_error = TypeError | IndexError | RegexError | CollaboratorError

section \<open>Text: Python strings over 8-bit characters\<close>

text \<open>
  Transcripts, names and labels are Python strings; they are modelled as lists of
  \<^typ>\<open>char\<close>. The character classes and the case mappings are the ones Python gives
  to ASCII characters; a character outside ASCII is taken as caseless, not a space,
  not a digit and not a word character.
\<close>

definition is_upper :: "char \<Rightarrow> bool" where
  "is_upper c \<longleftrightarrow> 65 \<le> (of_char c :: nat) \<and> (of_char c :: nat) \<le> 90"

definition is_lower :: "char \<Rightarrow> bool" where
  "is_lower c \<longleftrightarrow> 97 \<le> (of_char c :: nat) \<and> (of_char c :: nat) \<le> 122"

definition is_digit :: "char \<Rightarrow> bool" where
  "is_digit c \<longleftrightarrow> 48 \<le> (of_char c :: nat) \<and> (of_char c :: nat) \<le> 57"

text \<open>\<open>str.isspace\<close>, and \<open>\s\<close> of the regular expressions: tab, line feed, vertical
  tab, form feed, carriage return, the four separators 28 to 31, and the space.\<close>

definition is_space :: "char \<Rightarrow> bool" where
  "is_space c \<longleftrightarrow> (9 \<le> (of_char c :: nat) \<and> (of_char c :: nat) \<le> 13)
                  \<or> (28 \<le> (of_char c :: nat) \<and> (of_char c :: nat) \<le> 32)"

text \<open>\<open>\w\<close>: letters, digits and the underscore.\<close>

definition is_word :: "char \<Rightarrow> bool" where
  "is_word c \<longleftrightarrow> is_upper c \<or> is_lower c \<or> is_digit c \<or> c = CHR ''_''"

definition lower_char :: "char \<Rightarrow> char" where
  "lower_char c = (if is_upper c then char_of (of_char c + (32::nat)) else c)"

definition upper_char :: "char \<Rightarrow> char" where
  "upper_char c = (if is_lower c then char_of (of_char c - (32::nat)) else c)"

definition lower :: "string \<Rightarrow> string" where
  "lower s = map lower_char s"

text \<open>\<open>str.strip()\<close>: leading and trailing white space removed.\<close>

definition strip :: "string \<Rightarrow> string" where
  "strip s = rev (dropWhile is_space (rev (dropWhile is_space s)))"

text \<open>\<open>str.split()\<close> with no argument: the maximal runs of characters that are not
  white space, in order; never an empty token. \<open>cur\<close> is the token being read.\<close>

fun split_ws_from :: "string \<Rightarrow> string \<Rightarrow> string list" where
  "split_ws_from cur [] = (if cur = [] then [] else [cur])"
| "split_ws_from cur (c # cs) =
     (if is_space c
      then (if cur = [] then split_ws_from [] cs else cur # split_ws_from [] cs)
      else split_ws_from (cur @ [c]) cs)"

definition split_ws :: "string \<Rightarrow> string list" where
  "split_ws s = split_ws_from [] s"

text \<open>\<open>needle in hay\<close> on strings.\<close>

fun contains :: "string \<Rightarrow> string \<Rightarrow> bool" where
  "contains [] needle = (needle = [])"
| "contains (c # cs) needle = (prefix needle (c # cs) \<or> contains cs needle)"

text \<open>\<open>sep.join(parts)\<close>.\<close>

fun join :: "string \<Rightarrow> string list \<Rightarrow> string" where
  "join sep [] = []"
| "join sep [p] = p"
| "join sep (p # ps) = p @ sep @ join sep ps"

text \<open>Slices. \<open>s[i:j]\<close> with non-negative bounds is \<open>slice s i j\<close>. With a Python
  integer that may be negative, \<open>s[:i]\<close> is \<open>py_upto s i\<close> and \<open>s[i:]\<close> is
  \<open>py_from s i\<close>: a negative bound counts from the end and is clamped at the start.\<close>

definition slice :: "string \<Rightarrow> nat \<Rightarrow> nat \<Rightarrow> string" where
  "slice s i j = take (j - i) (drop i s)"

definition py_upto :: "string \<Rightarrow> int \<Rightarrow> string" where
  "py_upto s i = (if 0 \<le> i then take (nat i) s else take (length s - nat (- i)) s)"

definition py_from :: "string \<Rightarrow> int \<Rightarrow> string" where
  "py_from s i = (if 0 \<le> i then drop (nat i) s else drop (length s - nat (- i)) s)"

text \<open>\<open>str.title()\<close>: a cased character is upper-cased when the character before it
  is not cased (or there is none) and lower-cased otherwise. \<open>prev\<close> says whether the
  previous character was cased.\<close>

definition is_cased :: "char \<Rightarrow> bool" where
  "is_cased c \<longleftrightarrow> is_upper c \<or> is_lower c"

fun title_from :: "bool \<Rightarrow> string \<Rightarrow> string" where
  "title_from prev [] = []"
| "title_from prev (c # cs) =
     (if prev then lower_char c else upper_char c) # title_from (is_cased c) cs"

definition title :: "string \<Rightarrow> string" where
  "title s = title_from False s"

text \<open>\<open>text[0].upper() + text[1:]\<close>, guarded by \<open>if text\<close> in the source.\<close>

definition capitalize_first :: "string \<Rightarrow> string" where
  "capitalize_first s = (case s of [] \<Rightarrow> [] | c # cs \<Rightarrow> upper_char c # cs)"

section \<open>Regular expressions: the fixed patterns of the source\<close>

text \<open>
  The source matches text with Python's \<open>re\<close>. Its fixed patterns use literals,
  character classes, repeated classes, sequence, ordered alternation, the word boundary
  \<open>\b\<close>, the start anchor \<open>^\<close> and a one-character look-behind; they are written
  here as terms of \<open>rx\<close>. \<open>ends ic r s i\<close> lists the positions where a match of
  \<open>r\<close> starting at position \<open>i\<close> of \<open>s\<close> can end, in the order in which the
  backtracking matcher tries them: alternatives left to right, repetitions longest first.
  The engine returns the first. \<open>ic\<close> is the flag \<open>re.IGNORECASE\<close>.
\<close>

datatype rx =
    Chr char
  | Cls "char \<Rightarrow> bool"
  | RepCls "char \<Rightarrow> bool" nat "nat option"
  | Seq rx rx
  | Alt rx rx
  | Eps
  | WordB
  | Bol
  | LookBehind "char \<Rightarrow> bool"

definition eq_char :: "bool \<Rightarrow> char \<Rightarrow> char \<Rightarrow> bool" where
  "eq_char ic a b = (if ic then lower_char a = lower_char b else a = b)"

definition word_at :: "string \<Rightarrow> nat \<Rightarrow> bool" where
  "word_at s i \<longleftrightarrow> i < length s \<and> is_word (s ! i)"

text \<open>\<open>\b\<close> holds between a word character and a character that is not one, the two
  ends of the string counting as not a word character.\<close>

definition boundary :: "string \<Rightarrow> nat \<Rightarrow> bool" where
  "boundary s i \<longleftrightarrow> (0 < i \<and> word_at s (i - 1)) \<noteq> word_at s i"

fun ends :: "bool \<Rightarrow> rx \<Rightarrow> string \<Rightarrow> nat \<Rightarrow> nat list" where
  "ends ic (Chr c) s i = (if i < length s \<and> eq_char ic (s ! i) c then [Suc i] else [])"
| "ends ic (Cls p) s i = (if i < length s \<and> p (s ! i) then [Suc i] else [])"
| "ends ic (RepCls p lo hi) s i =
     (let n = length (takeWhile p (drop i s));
          m = (case hi of None \<Rightarrow> n | Some h \<Rightarrow> min n h)
      in map (\<lambda>k. i + k) (rev [lo ..< Suc m]))"
| "ends ic (Seq r1 r2) s i = concat (map (ends ic r2 s) (ends ic r1 s i))"
| "ends ic (Alt r1 r2) s i = ends ic r1 s i @ ends ic r2 s i"
| "ends ic Eps s i = [i]"
| "ends ic WordB s i = (if boundary s i then [i] else [])"
| "ends ic Bol s i = (if i = 0 then [i] else [])"
| "ends ic (LookBehind p) s i =
     (if 0 < i \<and> i \<le> length s \<and> p (s ! (i - 1)) then [i] else [])"

text \<open>A literal string, and an alternation \<open>(a|b|c)\<close>.\<close>

definition lit :: "string \<Rightarrow> rx" where
  "lit s = foldr (\<lambda>c r. Seq (Chr c) r) s Eps"

fun alts :: "rx list \<Rightarrow> rx" where
  "alts [] = Eps"
| "alts [r] = r"
| "alts (r # rs) = Alt r (alts rs)"

text \<open>
  \<open>re.finditer\<close>: the matches from left to right, as pairs of start and end. The
  search for the next match starts where the last one ended; after an empty match the
  next match at the same position must not be empty. \<open>scan\<close> goes through the
  positions in ascending order and skips the ones before \<open>nxt\<close>.
\<close>

fun scan :: "bool \<Rightarrow> rx \<Rightarrow> string \<Rightarrow> nat list \<Rightarrow> nat \<Rightarrow> (nat \<times> nat) list" where
  "scan ic r s [] nxt = []"
| "scan ic r s (i # is) nxt =
     (if i < nxt then scan ic r s is nxt
      else (case ends ic r s i of
              [] \<Rightarrow> scan ic r s is nxt
            | j # js \<Rightarrow>
                if j \<noteq> i then (i, j) # scan ic r s is j
                else (i, i) # (case filter (\<lambda>k. k \<noteq> i) js of
                                 [] \<Rightarrow> scan ic r s is nxt
                               | k # _ \<Rightarrow> (i, k) # scan ic r s is k)))"

definition finditer :: "bool \<Rightarrow> rx \<Rightarrow> string \<Rightarrow> (nat \<times> nat) list" where
  "finditer ic r s = scan ic r s [0 ..< Suc (length s)] 0"

text \<open>\<open>re.search\<close>: the first match, if any.\<close>

definition re_search :: "bool \<Rightarrow> rx \<Rightarrow> string \<Rightarrow> (nat \<times> nat) option" where
  "re_search ic r s = (case finditer ic r s of [] \<Rightarrow> None | m # _ \<Rightarrow> Some m)"

text \<open>\<open>re.split\<close> of a pattern without groups: the pieces of \<open>s\<close> between the
  matches. \<open>pieces s pos ms\<close> cuts from position \<open>pos\<close> on.\<close>

fun pieces :: "string \<Rightarrow> nat \<Rightarrow> (nat \<times> nat) list \<Rightarrow> string list" where
  "pieces s pos [] = [drop pos s]"
| "pieces s pos ((i, j) # ms) = slice s pos i # pieces s j ms"

definition re_split :: "bool \<Rightarrow> rx \<Rightarrow> string \<Rightarrow> string list" where
  "re_split ic r s = pieces s 0 (finditer ic r s)"

text \<open>\<open>re.sub(pattern, '', s)\<close>: every match removed.\<close>

definition re_remove :: "bool \<Rightarrow> rx \<Rightarrow> string \<Rightarrow> string" where
  "re_remove ic r s = concat (re_split ic r s)"

text \<open>The least number of characters a match of a pattern consumes.\<close>

fun min_len :: "rx \<Rightarrow> nat" where
  "min_len (Chr c) = 1"
| "min_len (Cls p) = 1"
| "min_len (RepCls p lo hi) = lo"
| "min_len (Seq r1 r2) = min_len r1 + min_len r2"
| "min_len (Alt r1 r2) = min (min_len r1) (min_len r2)"
| "min_len Eps = 0"
| "min_len WordB = 0"
| "min_len Bol = 0"
| "min_len (LookBehind p) = 0"

section \<open>Interval aligner (app/api.py, merge_transcription_diarization)\<close>

text \<open>
  Times are Python floats that the aligner only compares with \<open><\<close> and \<open>>\<close>, so
  the time type is any type with an order relation; nothing is assumed about that order.
  A transcription segment carries start, end and text; a diarization interval carries
  start, end and speaker; the merged segment adds the speaker to the three fields.
\<close>

record 'a tsegment =
  ts_start :: 'a
  ts_end :: 'a
  ts_text :: string

record 'a dsegment =
  ds_start :: 'a
  ds_end :: 'a
  ds_speaker :: string

record 'a msegment =
  ms_start :: 'a
  ms_end :: 'a
  ms_text :: string
  ms_speaker :: string

record 'a transcription =
  tr_text :: string
  tr_segments :: "'a tsegment list"
  tr_language :: "string option"

record 'a merged =
  full_text :: string
  segments :: "'a msegment list"
  language :: string

definition default_speaker :: string where
  "default_speaker = ''Speaker_0''"

definition overlaps :: "'a::ord dsegment \<Rightarrow> 'a tsegment \<Rightarrow> bool" where
  "overlaps d s \<longleftrightarrow> ds_start d < ts_end s \<and> ds_end d > ts_start s"

text \<open>The inner loop: the speaker starts as the default and the first overlapping
  interval overwrites it and breaks.\<close>

fun find_speaker :: "'a::ord dsegment list \<Rightarrow> 'a tsegment \<Rightarrow> string" where
  "find_speaker [] s = default_speaker"
| "find_speaker (d # ds) s = (if overlaps d s then ds_speaker d else find_speaker ds s)"

definition with_speaker :: "'a tsegment \<Rightarrow> string \<Rightarrow> 'a msegment" where
  "with_speaker s sp =
     \<lparr>ms_start = ts_start s, ms_end = ts_end s, ms_text = ts_text s, ms_speaker = sp\<rparr>"

definition merge_transcription_diarization ::
  "'a::ord transcription \<Rightarrow> 'a dsegment list \<Rightarrow> 'a merged" where
  "merge_transcription_diarization transcription diarization =
     \<lparr>full_text = tr_text transcription,
      segments =
        (if diarization \<noteq> []
         then map (\<lambda>s. with_speaker s (find_speaker diarization s)) (tr_segments transcription)
         else map (\<lambda>s. with_speaker s default_speaker) (tr_segments transcription)),
      language = (case tr_language transcription of None \<Rightarrow> ''en'' | Some l \<Rightarrow> l)\<rparr>"

text \<open>What the claim calls the first overlapping interval in input order.\<close>

definition first_overlap :: "'a::ord dsegment list \<Rightarrow> 'a tsegment \<Rightarrow> 'a dsegment option" where
  "first_overlap ds s = find (\<lambda>d. overlaps d s) ds"

section \<open>Mention tracker: search, deduplication, highlighting (services/mention_tracker.py)\<close>

text \<open>A mention: the variation searched for, the text matched, the character offsets
  of the match in the transcript and a context window.\<close>

record mention =
  variation :: string
  matched_text :: string
  position :: int
  end_position :: int
  mcontext :: string

text \<open>The search pattern of a variation is \<open>\b\<close>, the variation escaped with
  \<open>re.escape\<close> (every character stands for itself), and \<open>\b\<close>.\<close>

definition word_pattern :: "string \<Rightarrow> rx" where
  "word_pattern v = Seq WordB (Seq (lit v) WordB)"

text \<open>The mention built for one match: the context is 50 characters on each side,
  clamped to the transcript, then stripped.\<close>

definition make_mention :: "string \<Rightarrow> string \<Rightarrow> nat \<times> nat \<Rightarrow> mention" where
  "make_mention transcript v m =
     (case m of (start_pos, end_pos) \<Rightarrow>
        \<lparr>variation = v,
         matched_text = slice transcript start_pos end_pos,
         position = int start_pos,
         end_position = int end_pos,
         mcontext = strip (slice transcript (start_pos - 50)
                             (min (length transcript) (end_pos + 50)))\<rparr>)"

text \<open>The loop of \<open>_deduplicate_mentions\<close>: a mention that starts less than 5
  characters after the end of the last one kept is skipped.\<close>

definition dedup_step :: "mention list \<Rightarrow> mention \<Rightarrow> mention list" where
  "dedup_step deduplicated m =
     (if position m < end_position (last deduplicated) + 5 then deduplicated
      else deduplicated @ [m])"

text \<open>\<open>sorted(mentions, key=position)\<close> is a stable sort, as \<^const>\<open>sort_key\<close> is.\<close>

definition deduplicate_mentions :: "mention list \<Rightarrow> mention list" where
  "deduplicate_mentions mentions =
     (case sort_key position mentions of
        [] \<Rightarrow> []
      | m # rest \<Rightarrow> foldl dedup_step [m] rest)"

text \<open>\<open>_find_mentions\<close>: the candidates of every variation in turn, deduplicated,
  then sorted by position once more.\<close>

definition candidates :: "string \<Rightarrow> string list \<Rightarrow> mention list" where
  "candidates transcript name_variations =
     concat (map (\<lambda>v. map (make_mention transcript v)
                           (finditer True (word_pattern v) transcript))
                 name_variations)"

definition find_mentions :: "string \<Rightarrow> string list \<Rightarrow> mention list" where
  "find_mentions transcript name_variations =
     sort_key position (deduplicate_mentions (candidates transcript name_variations))"

text \<open>\<open>_build_highlighted_transcript\<close>: the mentions in descending position, each
  replacing \<open>highlighted[start:end]\<close> by the tagged matched text. Python's
  \<open>sorted(..., reverse=True)\<close> keeps equal keys in their original order.\<close>

definition open_tag :: string where
  "open_tag = ''[MENTION]''"

definition close_tag :: string where
  "close_tag = ''[/MENTION]''"

definition highlight_step :: "string \<Rightarrow> mention \<Rightarrow> string" where
  "highlight_step highlighted m =
     py_upto highlighted (position m) @ open_tag @ matched_text m @ close_tag
       @ py_from highlighted (end_position m)"

definition sorted_desc :: "mention list \<Rightarrow> mention list" where
  "sorted_desc mentions = rev (sort_key position (rev mentions))"

definition build_highlighted_transcript :: "string \<Rightarrow> mention list \<Rightarrow> string" where
  "build_highlighted_transcript transcript mentions =
     (if mentions = [] then transcript
      else foldl highlight_step transcript (sorted_desc mentions))"

text \<open>The test of the deduplication loop.\<close>

abbreviation too_close :: "mention \<Rightarrow> mention \<Rightarrow> bool" where
  "too_close prev nxt \<equiv> position nxt < end_position prev + 5"

section \<open>Removing the highlight markers\<close>

text \<open>
  Modelled from the spec: "removing all highlight markers from the highlighted
  transcript". The repository builds the highlighted transcript and has no function that
  removes the markers again. \<open>drop_tags tags k s\<close> reads \<open>s\<close> from left to right and drops
  every occurrence of one of the markers \<open>tags\<close> that it meets; \<open>k\<close> counts the characters
  of the marker just met that are still to be dropped.
\<close>

fun drop_tags :: "string list \<Rightarrow> nat \<Rightarrow> string \<Rightarrow> string" where
  "drop_tags tags k [] = []"
| "drop_tags tags (Suc k) (c # cs) = drop_tags tags k cs"
| "drop_tags tags 0 (c # cs) =
     (case find (\<lambda>tag. prefix tag (c # cs)) tags of
        Some tag \<Rightarrow> drop_tags tags (length tag - 1) cs
      | None \<Rightarrow> c # drop_tags tags 0 cs)"

text \<open>Modelled from the spec: the markers removed in one pass over the text, as a
  substitution of the empty string for the pattern of the two markers does.\<close>

definition strip_markers :: "string \<Rightarrow> string" where
  "strip_markers s = drop_tags [open_tag, close_tag] 0 s"

text \<open>Modelled from the spec: the markers removed in two passes, every \<open>[MENTION]\<close>
  first and then every \<open>[/MENTION]\<close>, as two calls of \<open>str.replace\<close> do.\<close>

definition replace_markers :: "string \<Rightarrow> string" where
  "replace_markers s = drop_tags [close_tag] 0 (drop_tags [open_tag] 0 s)"

section \<open>Action item extractor (services/action_items.py)\<close>

text \<open>The language pipeline is an external collaborator: for a text it yields the
  sentences, each with its raw text and its labelled entity spans, or it raises.\<close>

record entity =
  ent_text :: string
  ent_label :: string

record sentence =
  sent_text :: string
  sent_ents :: "entity list"

record action_item =
  task :: string
  assignee :: string
  deadline :: string
  priority :: string
  acontext :: string
  confidence :: rat

definition action_verbs :: "string list" where
  "action_verbs =
     [''will'', ''should'', ''must'', ''need to'', ''needs to'', ''have to'', ''has to'',
      ''going to'', ''plan to'', ''plans to'', ''responsible for'', ''assigned to'',
      ''take care of'', ''handle'', ''complete'', ''finish'', ''deliver'', ''prepare'',
      ''create'', ''build'', ''develop'', ''design'', ''implement'', ''review'', ''send'']"

definition priority_high :: "string list" where
  "priority_high = [''urgent'', ''asap'', ''immediately'', ''critical'', ''high priority'']"

definition priority_low :: "string list" where
  "priority_low = [''when possible'', ''eventually'', ''low priority'', ''nice to have'']"

definition weekdays :: "string list" where
  "weekdays = [''monday'', ''tuesday'', ''wednesday'', ''thursday'', ''friday'',
               ''saturday'', ''sunday'']"

definition relative_days :: "string list" where
  "relative_days = [''tomorrow'', ''today'', ''next week'', ''this week'']"

definition months :: "string list" where
  "months = [''january'', ''february'', ''march'', ''april'', ''may'', ''june'', ''july'',
             ''august'', ''september'', ''october'', ''november'', ''december'']"

text \<open>The four date patterns, in the order of the source:
  \<open>\b(monday|...|sunday)\b\<close>, \<open>\b(tomorrow|today|next week|this week)\b\<close>,
  \<open>\b(january|...|december)\s+\d{1,2}\b\<close> and \<open>\b\d{1,2}/\d{1,2}/\d{2,4}\b\<close>.\<close>

definition date_patterns :: "rx list" where
  "date_patterns =
     [Seq WordB (Seq (alts (map lit weekdays)) WordB),
      Seq WordB (Seq (alts (map lit relative_days)) WordB),
      Seq WordB (Seq (alts (map lit months))
        (Seq (RepCls is_space 1 None) (Seq (RepCls is_digit 1 (Some 2)) WordB))),
      Seq WordB (Seq (RepCls is_digit 1 (Some 2)) (Seq (Chr CHR ''/'')
        (Seq (RepCls is_digit 1 (Some 2)) (Seq (Chr CHR ''/'')
        (Seq (RepCls is_digit 2 (Some 4)) WordB)))))]"

definition contains_action_verb :: "string \<Rightarrow> bool" where
  "contains_action_verb text = list_ex (\<lambda>verb. contains (lower text) verb) action_verbs"

definition roles :: "string list" where
  "roles = [''team'', ''designer'', ''developer'', ''manager'', ''lead'', ''engineer'']"

text \<open>\<open>_extract_assignee\<close>: the PERSON entities joined with \<open>and\<close>, else the first
  role whose phrase \<open>the <role>\<close> occurs in the lower-cased sentence, else nothing.\<close>

definition extract_assignee :: "sentence \<Rightarrow> string option" where
  "extract_assignee sent =
     (let persons = map ent_text (filter (\<lambda>e. ent_label e = ''PERSON'') (sent_ents sent))
      in if persons \<noteq> [] then Some (join '' and '' persons)
         else (case find (\<lambda>role. contains (lower (sent_text sent)) (''the '' @ role)) roles of
                 Some role \<Rightarrow> Some (''The '' @ role)
               | None \<Rightarrow> None))"

text \<open>\<open>_extract_deadline\<close>: the first pattern that matches the lower-cased text gives
  the deadline, its match in title case.\<close>

fun first_date :: "rx list \<Rightarrow> string \<Rightarrow> string option" where
  "first_date [] text_lower = None"
| "first_date (p # ps) text_lower =
     (case re_search True p text_lower of
        Some (i, j) \<Rightarrow> Some (title (slice text_lower i j))
      | None \<Rightarrow> first_date ps text_lower)"

definition extract_deadline :: "string \<Rightarrow> string option" where
  "extract_deadline text = first_date date_patterns (lower text)"

definition extract_priority :: "string \<Rightarrow> string" where
  "extract_priority text =
     (if list_ex (\<lambda>keyword. contains (lower text) keyword) priority_high then ''high''
      else if list_ex (\<lambda>keyword. contains (lower text) keyword) priority_low then ''low''
      else ''medium'')"

text \<open>The three prefixes that \<open>_extract_task_description\<close> removes:
  \<open>^(so|well|um|uh|okay|alright),?\s*\<close> and
  \<open>^(can you|could you|would you|will you)\s+\<close>, both ignoring case, and
  \<open>^[A-Z][a-z]+,\s*\<close>.\<close>

definition filler_prefix :: rx where
  "filler_prefix =
     Seq Bol (Seq (alts (map lit [''so'', ''well'', ''um'', ''uh'', ''okay'', ''alright'']))
       (Seq (RepCls (\<lambda>c. c = CHR '','') 0 (Some 1)) (RepCls is_space 0 None)))"

definition request_prefix :: rx where
  "request_prefix =
     Seq Bol (Seq (alts (map lit [''can you'', ''could you'', ''would you'', ''will you'']))
       (RepCls is_space 1 None))"

definition vocative_prefix :: rx where
  "vocative_prefix =
     Seq Bol (Seq (Cls is_upper) (Seq (RepCls is_lower 1 None)
       (Seq (Chr CHR '','') (RepCls is_space 0 None))))"

definition extract_task_description :: "string \<Rightarrow> string" where
  "extract_task_description text =
     capitalize_first (strip (re_remove False vocative_prefix
       (re_remove True request_prefix (re_remove True filler_prefix text))))"

text \<open>
  \<open>_calculate_confidence\<close>. The source adds the float literals 0.3, 0.3, 0.2 and 0.2;
  the score is modelled as the exact rational sum. Every sum the function can form is
  a multiple of one tenth between 0.3 and 1.0, and the one comparison of the caller
  that could depend on rounding, \<open>0.3 + 0.3 >= 0.6\<close>, holds of the doubles as well
  (doubling is exact, and the double nearest to 0.6 is twice the one nearest to 0.3).
\<close>

definition calculate_confidence :: "bool \<Rightarrow> bool \<Rightarrow> bool \<Rightarrow> nat \<Rightarrow> rat" where
  "calculate_confidence has_assignee has_deadline has_action_verb sentence_length =
     min ((if has_action_verb then 3 / 10 else 0)
        + (if has_assignee then 3 / 10 else 0)
        + (if has_deadline then 2 / 10 else 0)
        + (if 5 \<le> sentence_length \<and> sentence_length \<le> 30 then 2 / 10 else 0)) 1"

text \<open>\<open>round(x, 2)\<close>, to the nearest hundredth.\<close>

definition round2 :: "rat \<Rightarrow> rat" where
  "round2 x = of_int (round (x * 100)) / 100"

text \<open>\<open>value or default\<close> on an optional string: the default replaces both \<open>None\<close>
  and the empty string.\<close>

definition or_default :: "string option \<Rightarrow> string \<Rightarrow> string" where
  "or_default v d = (case v of None \<Rightarrow> d | Some s \<Rightarrow> if s = [] then d else s)"

text \<open>The body of the loop over the sentences: the item emitted for one sentence, if
  any.\<close>

definition item_of_sentence :: "sentence \<Rightarrow> action_item option" where
  "item_of_sentence sent =
     (let sentence_text = strip (sent_text sent) in
      if \<not> contains_action_verb sentence_text then None
      else
        let assignee = extract_assignee sent;
            deadline = extract_deadline sentence_text;
            priority = extract_priority sentence_text;
            task = extract_task_description sentence_text;
            confidence = calculate_confidence (assignee \<noteq> None) (deadline \<noteq> None) True
                           (length (split_ws sentence_text))
        in if 6 / 10 \<le> confidence \<and> task \<noteq> []
           then Some \<lparr>task = task,
                      assignee = or_default assignee ''Unassigned'',
                      deadline = or_default deadline ''No deadline specified'',
                      priority = priority,
                      acontext = sentence_text,
                      confidence = round2 confidence\<rparr>
           else None)"

definition priority_order :: "string \<Rightarrow> nat" where
  "priority_order p =
     (if p = ''high'' then 0 else if p = ''medium'' then 1 else if p = ''low'' then 2 else 3)"

text \<open>The items in sentence order, before the final sort.\<close>

definition emitted :: "sentence list \<Rightarrow> action_item list" where
  "emitted doc = List.map_filter item_of_sentence doc"

text \<open>\<open>ActionItemExtractor.extract\<close>: an exception of the pipeline is logged and raised again;
  \<open>list.sort\<close> is stable.\<close>

definition extract_items :: "(string \<Rightarrow> py_error + sentence list) \<Rightarrow> string \<Rightarrow> py_error + action_item list" where
  "extract_items nlp text =
     (case nlp text of
        Inl e \<Rightarrow> Inl e
      | Inr doc \<Rightarrow> Inr (sort_key (\<lambda>x. priority_order (priority x)) (emitted doc)))"

text \<open>A pipeline that answers every text with the same sentences: the collaborator's
  output held fixed.\<close>

definition answering :: "sentence list \<Rightarrow> string \<Rightarrow> py_error + sentence list" where
  "answering doc text = Inr doc"

section \<open>Name variations (mention_tracker.py and personal_insights.py)\<close>

text \<open>
  Both services build the variations in a Python set and return \<open>list(set)\<close>. Python
  fixes no iteration order for a set, so the conversion is a parameter \<open>ord\<close> of the
  model: it receives the elements in insertion order and returns them in the order of the
  set.
\<close>

text \<open>\<open>MentionTracker._generate_name_variations\<close>. \<open>username.split()[0]\<close> raises
  \<open>IndexError\<close> when there is no token; \<open>word[0]\<close> cannot, since a token is never
  empty.\<close>

definition mt_generate_name_variations ::
  "(string list \<Rightarrow> string list) \<Rightarrow> string \<Rightarrow> py_error + string list" where
  "mt_generate_name_variations ord username =
     (if CHR '' '' \<in> set username
      then (case split_ws username of
              [] \<Rightarrow> Inl IndexError
            | w # ws \<Rightarrow>
                Inr (ord [lower username, lower w, lower (map hd (w # ws))]))
      else Inr (ord [lower username]))"

text \<open>\<open>PersonalInsightsService._generate_name_variations\<close>: the first name is added
  when there are at least two tokens; the initials are added whenever they are not
  empty.\<close>

definition pi_generate_name_variations ::
  "(string list \<Rightarrow> string list) \<Rightarrow> string \<Rightarrow> string list" where
  "pi_generate_name_variations ord name =
     (let parts = split_ws name;
          initials = map hd (filter (\<lambda>p. p \<noteq> []) parts)
      in ord ([lower name]
              @ (if 1 < length parts then [lower (hd parts)] else [])
              @ (if 0 < length initials then [lower initials] else [])))"

section \<open>Personal summary (personal_insights.py, summarization.py)\<close>

text \<open>What \<open>SummarizationService.summarize\<close> returns.\<close>

record summary_result =
  summary :: string
  original_length :: nat
  summary_length :: nat
  compression_ratio :: rat

text \<open>
  The summarization service is an external collaborator: \<open>svc text max_length\<close> is the
  body of \<open>summarize(self, text, max_length=200)\<close>, which returns a result or raises.
  The method declares the parameters \<open>text\<close> and \<open>max_length\<close> and no others, and a
  Python call that passes a keyword the callee does not declare raises \<open>TypeError\<close>
  before the body runs.
\<close>

definition summarize_parameters :: "string list" where
  "summarize_parameters = [''text'', ''max_length'']"

definition call_summarize ::
  "(string \<Rightarrow> nat \<Rightarrow> py_error + summary_result) \<Rightarrow> string \<Rightarrow> (string \<times> nat) list
     \<Rightarrow> py_error + summary_result" where
  "call_summarize svc text keywords =
     (if list_all (\<lambda>kw. fst kw \<in> set summarize_parameters) keywords
      then svc text (case map_of keywords ''max_length'' of Some m \<Rightarrow> m | None \<Rightarrow> 200)
      else Inl TypeError)"

definition context_prompt :: "string \<Rightarrow> string" where
  "context_prompt user_name =
     ''Summary for '' @ user_name @ [CHR 0x27] @ ''s involvement in the meeting:'' @ [CHR 0x0A]"

text \<open>\<open>_generate_personal_summary\<close>: the call
  \<open>summarize(personal_transcript, max_length=150, min_length=30)\<close> sits in a
  \<open>try\<close> whose handler returns the empty string.\<close>

definition generate_personal_summary ::
  "(string \<Rightarrow> nat \<Rightarrow> py_error + summary_result) \<Rightarrow> string \<Rightarrow> string \<Rightarrow> string" where
  "generate_personal_summary svc personal_transcript user_name =
     (if personal_transcript = [] \<or> length personal_transcript < 10 then []
      else (case call_summarize svc personal_transcript
                   [(''max_length'', 150), (''min_length'', 30)] of
              Inl e \<Rightarrow> []
            | Inr summary_result \<Rightarrow>
                (let summary_text = summary summary_result
                 in if summary_text \<noteq> [] then context_prompt user_name @ summary_text
                    else [])))"

text \<open>A summarization service that answers every request with one fixed summary.\<close>

definition fixed_summary :: "string \<Rightarrow> string \<Rightarrow> nat \<Rightarrow> py_error + summary_result" where
  "fixed_summary s text max_length =
     Inr \<lparr>summary = s, original_length = length text, summary_length = length s,
          compression_ratio = 1\<rparr>"

section \<open>Mention tracker: sentences, task assignments and the report\<close>

record sentence_mention =
  sm_text :: string
  sm_variation :: string
  position_in_sentence :: int

record sentence_group =
  sg_sentence :: string
  sg_position :: int
  sg_mention_count :: nat
  sg_mentions :: "sentence_mention list"

text \<open>The sentence boundary pattern \<open>(?<=[.!?])\s+|\n+\<close>.\<close>

definition sentence_pattern :: rx where
  "sentence_pattern =
     Alt (Seq (LookBehind (\<lambda>c. c \<in> set ''.!?'')) (RepCls is_space 1 None))
         (RepCls (\<lambda>c. c = CHR 0x0A) 1 None)"

text \<open>One round of the loop of \<open>_extract_sentences_with_mentions\<close>; the state is
  \<open>current_pos\<close> and the sentences collected so far.\<close>

definition sentence_step ::
  "mention list \<Rightarrow> int \<times> sentence_group list \<Rightarrow> string \<Rightarrow> int \<times> sentence_group list" where
  "sentence_step found st raw_sentence =
     (case st of (current_pos, sentences) \<Rightarrow>
        if strip raw_sentence = [] then (current_pos + int (length raw_sentence), sentences)
        else
          let sentence_start = current_pos;
              sentence_end = current_pos + int (length raw_sentence);
              sentence_mentions =
                filter (\<lambda>m. sentence_start \<le> position m \<and> position m < sentence_end) found
          in (sentence_end + 1,
              if sentence_mentions \<noteq> []
              then sentences @
                [\<lparr>sg_sentence = strip raw_sentence,
                  sg_position = sentence_start,
                  sg_mention_count = length sentence_mentions,
                  sg_mentions =
                    map (\<lambda>m. \<lparr>sm_text = matched_text m, sm_variation = variation m,
                               position_in_sentence = position m - sentence_start\<rparr>)
                        sentence_mentions\<rparr>]
              else sentences))"

definition extract_sentences_with_mentions :: "string \<Rightarrow> mention list \<Rightarrow> sentence_group list" where
  "extract_sentences_with_mentions transcript found =
     snd (foldl (sentence_step found) (0, []) (re_split False sentence_pattern transcript))"

record task_assignment =
  ta_task :: string
  assigned_to :: string
  source_sentence :: string
  ta_confidence :: string

text \<open>
  The four directive patterns are strings built at run time: the name variations are
  joined with \<open>|\<close> and inserted as they are, not escaped. \<open>bsl\<close> is the backslash.
\<close>

definition bsl :: string where
  "bsl = [CHR 0x5C]"

definition task_patterns :: "string list \<Rightarrow> string list" where
  "task_patterns name_variations =
     (let names = join ''|'' name_variations;
          tail = ''(.+?)(?:[.!?]|$)''
      in [''(?:can you|could you|will you|would you|can (?:'' @ names @ '')|'' @ names
            @ bsl @ ''s+(?:can|could|will|would))'' @ bsl @ ''s+'' @ tail,
          ''(?:assign|assigned|assign to|give to)'' @ bsl @ ''s+(?:'' @ names @ '')'' @ bsl
            @ ''s+(?:the'' @ bsl @ ''s+)?task'' @ bsl @ ''s+(?:to'' @ bsl @ ''s+)?'' @ tail,
          ''(?:'' @ names @ '')'' @ bsl @ ''s+(?:needs to|should|will|can|must)'' @ bsl
            @ ''s+'' @ tail,
          ''(?:needs|need)'' @ bsl @ ''s+(?:'' @ names @ '')'' @ bsl @ ''s+to'' @ bsl
            @ ''s+'' @ tail])"

text \<open>Results of a list of computations that may raise, concatenated; the first
  exception ends the loop.\<close>

fun concat_results :: "('a \<Rightarrow> py_error + 'b list) \<Rightarrow> 'a list \<Rightarrow> py_error + 'b list" where
  "concat_results f [] = Inr []"
| "concat_results f (x # xs) =
     (case f x of
        Inl e \<Rightarrow> Inl e
      | Inr ys \<Rightarrow> (case concat_results f xs of Inl e \<Rightarrow> Inl e | Inr zs \<Rightarrow> Inr (ys @ zs)))"

text \<open>The task recorded for the first group of one match, if it is long enough.\<close>

definition task_of_match :: "string \<Rightarrow> string \<Rightarrow> string \<Rightarrow> task_assignment list" where
  "task_of_match username sentence_text group1 =
     (let task_text = strip group1
      in if task_text \<noteq> [] \<and> 5 < length task_text
         then [\<lparr>ta_task = capitalize_first task_text, assigned_to = username,
                 source_sentence = sentence_text, ta_confidence = ''extracted''\<rparr>]
         else [])"

text \<open>The first task of each lower-cased task text is kept.\<close>

fun unique_tasks :: "string list \<Rightarrow> task_assignment list \<Rightarrow> task_assignment list" where
  "unique_tasks seen [] = []"
| "unique_tasks seen (t # ts) =
     (if lower (ta_task t) \<notin> set seen then t # unique_tasks (lower (ta_task t) # seen) ts
      else unique_tasks seen ts)"

text \<open>
  \<open>_extract_task_assignments\<close>. The patterns are compiled and run by \<open>re\<close>, which is
  outside the repository: \<open>group1 pattern text\<close> stands for the first groups of the
  matches of \<open>re.finditer(pattern, text, re.IGNORECASE)\<close>, or for the \<open>re.error\<close> it
  raises on a pattern that does not compile.
\<close>

definition extract_task_assignments ::
  "(string \<Rightarrow> string \<Rightarrow> py_error + string list) \<Rightarrow> sentence_group list \<Rightarrow> string
     \<Rightarrow> string list \<Rightarrow> py_error + task_assignment list" where
  "extract_task_assignments group1 sentences username name_variations =
     (case concat_results
             (\<lambda>sentence_dict.
                concat_results
                  (\<lambda>pattern.
                     case group1 pattern (sg_sentence sentence_dict) of
                       Inl e \<Rightarrow> Inl e
                     | Inr gs \<Rightarrow>
                         Inr (concat (map (task_of_match username (sg_sentence sentence_dict)) gs)))
                  (task_patterns name_variations))
             sentences of
        Inl e \<Rightarrow> Inl e
      | Inr tasks \<Rightarrow> Inr (unique_tasks [] tasks))"

record 'a speaker_mention =
  segment_index :: nat
  sp_speaker :: string
  sp_text :: string
  start_time :: 'a
  end_time :: 'a
  mention_type :: string

text \<open>\<open>_get_speaker_mentions\<close>: the segments with a non-empty speaker label that
  contains a variation. The merged segments carry no \<open>index\<close>, so the index is the
  default 0.\<close>

definition get_speaker_mentions :: "'a msegment list \<Rightarrow> string list \<Rightarrow> 'a speaker_mention list" where
  "get_speaker_mentions segs name_variations =
     map (\<lambda>seg. \<lparr>segment_index = 0, sp_speaker = ms_speaker seg, sp_text = ms_text seg,
                  start_time = ms_start seg, end_time = ms_end seg,
                  mention_type = ''speaker''\<rparr>)
         (filter (\<lambda>seg. ms_speaker seg \<noteq> []
                    \<and> list_ex (\<lambda>v. contains (lower (ms_speaker seg)) v) name_variations)
                 segs)"

record 'a mention_report =
  rp_username :: string
  highlight_transcript :: string
  mention_count :: nat
  rp_mentions :: "mention list"
  sentences_with_mentions :: "sentence_group list"
  sentence_count :: nat
  assigned_tasks :: "task_assignment list"
  speaker_mentions :: "'a speaker_mention list"
  tracked_at :: string
  tracking_status :: string

text \<open>What a run of the tracker takes from outside the repository: the order in which
  a set is listed, the regular expression engine on the run-time patterns, and the
  reading of the clock, \<open>datetime.now().isoformat()\<close>.\<close>

record tracker_env =
  set_order :: "string list \<Rightarrow> string list"
  group1_matches :: "string \<Rightarrow> string \<Rightarrow> py_error + string list"
  now_isoformat :: string

text \<open>The \<open>try\<close> block of \<open>track_mentions\<close>: an exception, no result, or a
  report.\<close>

definition track_body ::
  "tracker_env \<Rightarrow> string \<Rightarrow> string \<Rightarrow> 'a msegment list \<Rightarrow> bool
     \<Rightarrow> py_error + 'a mention_report option" where
  "track_body env username full_transcript segs diarization_available =
     (if username = [] \<or> full_transcript = [] then Inr None
      else
        case mt_generate_name_variations (set_order env) (strip username) of
          Inl e \<Rightarrow> Inl e
        | Inr name_variations \<Rightarrow>
            let found = find_mentions full_transcript name_variations
            in if found = [] then Inr None
               else
                 let sentences = extract_sentences_with_mentions full_transcript found
                 in case extract_task_assignments (group1_matches env) sentences
                           (strip username) name_variations of
                      Inl e \<Rightarrow> Inl e
                    | Inr tasks \<Rightarrow>
                        Inr (Some
                          \<lparr>rp_username = strip username,
                           highlight_transcript =
                             build_highlighted_transcript full_transcript found,
                           mention_count = length found,
                           rp_mentions = found,
                           sentences_with_mentions = sentences,
                           sentence_count = length sentences,
                           assigned_tasks = tasks,
                           speaker_mentions =
                             (if diarization_available
                              then get_speaker_mentions segs name_variations else []),
                           tracked_at = now_isoformat env,
                           tracking_status = ''success''\<rparr>))"

text \<open>\<open>track_mentions\<close>: the handler \<open>except Exception\<close> logs and returns
  \<open>None\<close>.\<close>

definition track_mentions ::
  "tracker_env \<Rightarrow> string \<Rightarrow> string \<Rightarrow> 'a msegment list \<Rightarrow> bool \<Rightarrow> 'a mention_report option" where
  "track_mentions env username full_transcript segs diarization_available =
     (case track_body env username full_transcript segs diarization_available of
        Inl e \<Rightarrow> None
      | Inr r \<Rightarrow> r)"

text \<open>An environment for the examples: a set is listed in insertion order, the engine
  finds no match of a directive pattern, and the clock reads \<open>now\<close>.\<close>

definition clock_env :: "string \<Rightarrow> tracker_env" where
  "clock_env now =
     \<lparr>set_order = remdups, group1_matches = (\<lambda>pattern text. Inr []), now_isoformat = now\<rparr>"

section \<open>Properties of the text functions\<close>

lemma lower_char_upper: "is_upper c \<Longrightarrow> is_lower (lower_char c)"
  by (simp add: lower_char_def is_upper_def is_lower_def)

lemma upper_char_lower: "is_lower c \<Longrightarrow> is_upper (upper_char c)"
  using mod_less [of "of_char c - 32" 256]
  by (auto simp add: upper_char_def is_upper_def is_lower_def)

lemma upper_not_lower: "is_upper c \<Longrightarrow> \<not> is_lower c"
  by (simp add: is_upper_def is_lower_def)

lemma upper_char_not_lower: "\<not> is_lower (upper_char c)"
  using upper_char_lower [of c] upper_not_lower [of "upper_char c"]
  by (cases "is_lower c") (simp_all add: upper_char_def)

lemma space_uncased: "\<not> is_cased (CHR '' '')"
  by (simp add: is_cased_def is_upper_def is_lower_def)

lemma lower_char_space: "lower_char c = CHR '' '' \<Longrightarrow> c = CHR '' ''"
  using lower_char_upper [of c] by (cases "is_upper c") (auto simp add: lower_char_def is_lower_def)

lemma upper_char_space: "upper_char c = CHR '' '' \<Longrightarrow> c = CHR '' ''"
  using upper_char_lower [of c] by (cases "is_lower c") (auto simp add: upper_char_def is_upper_def)

lemma title_from_Nil_iff: "title_from p s = [] \<longleftrightarrow> s = []"
  by (cases s) simp_all

lemma title_head_space:
  "(if p then lower_char c else upper_char c) = CHR '' '' \<Longrightarrow> c = CHR '' ''"
  using lower_char_space [of c] upper_char_space [of c] by (cases p) simp_all

lemma title_from_after_space:
  "Suc k < length s \<Longrightarrow> title_from p s ! k = CHR '' ''
     \<Longrightarrow> \<not> is_lower (title_from p s ! Suc k)"
proof (induction s arbitrary: p k)
  case Nil
  then show ?case by simp
next
  case (Cons c cs)
  show ?case
  proof (cases k)
    case 0
    obtain c' cs' where cs: "cs = c' # cs'"
      using Cons.prems(1) 0 by (cases cs) simp_all
    have "(if p then lower_char c else upper_char c) = CHR '' ''"
      using Cons.prems(2) 0 by simp
    then have "c = CHR '' ''" by (rule title_head_space)
    then have "\<not> is_cased c" by (simp add: space_uncased)
    then have "title_from p (c # cs) ! Suc k = upper_char c'"
      using 0 cs by simp
    then show ?thesis by (simp add: upper_char_not_lower)
  next
    case (Suc k')
    then have "Suc k' < length cs" "title_from (is_cased c) cs ! k' = CHR '' ''"
      using Cons.prems by simp_all
    then have "\<not> is_lower (title_from (is_cased c) cs ! Suc k')"
      by (rule Cons.IH)
    then show ?thesis using Suc by simp
  qed
qed

lemma length_title_from: "length (title_from p s) = length s"
  by (induction s arbitrary: p) simp_all

lemma title_not_default: "title s \<noteq> ''No deadline specified''"
proof
  assume h: "title s = ''No deadline specified''"
  then have t: "title_from False s = ''No deadline specified''"
    by (simp only: title_def)
  have "length (title_from False s) = length s"
    by (rule length_title_from)
  then have l: "Suc 2 < length s"
    unfolding t by simp
  have "title_from False s ! 2 = CHR '' ''"
    unfolding t by simp
  with l have "\<not> is_lower (title_from False s ! Suc 2)"
    by (rule title_from_after_space)
  moreover have "title_from False s ! Suc 2 = CHR ''d''"
    unfolding t by simp
  moreover have "is_lower (CHR ''d'')"
    by (simp add: is_lower_def)
  ultimately show False by simp
qed

lemma title_Nil_iff: "title s = [] \<longleftrightarrow> s = []"
  by (simp add: title_def title_from_Nil_iff)

section \<open>Properties of the matcher\<close>

lemma ends_min_len: "j \<in> set (ends ic r s i) \<Longrightarrow> i + min_len r \<le> j"
proof (induction r arbitrary: i j)
  case (Seq r1 r2)
  then obtain k where "k \<in> set (ends ic r1 s i)" "j \<in> set (ends ic r2 s k)" by auto
  with Seq.IH show ?case by fastforce
next
  case (Alt r1 r2)
  then show ?case by fastforce
next
  case (RepCls p lo hi)
  then obtain k where "j = i + k" "lo \<le> k"
    by (auto simp add: Let_def)
  then show ?case by simp
qed (simp_all split: if_splits)

lemma ends_le_length: "j \<in> set (ends ic r s i) \<Longrightarrow> i \<le> length s \<Longrightarrow> j \<le> length s"
proof (induction r arbitrary: i j)
  case (RepCls p lo hi)
  have "length (takeWhile p (drop i s)) \<le> length s - i"
    by (metis length_drop length_takeWhile_le)
  with RepCls show ?case by (auto simp add: Let_def split: option.splits)
next
  case (Seq r1 r2)
  then obtain k where "k \<in> set (ends ic r1 s i)" "j \<in> set (ends ic r2 s k)" by auto
  with Seq show ?case by blast
qed (auto split: if_splits)

lemma scan_matches:
  "(i, j) \<in> set (scan ic r s is nxt) \<Longrightarrow> i \<in> set is \<and> j \<in> set (ends ic r s i)"
proof (induction "is" arbitrary: nxt)
  case Nil
  then show ?case by simp
next
  case (Cons a "is")
  note IH = Cons.IH and prem = Cons.prems
  show ?case
  proof (cases "a < nxt")
    case True
    with prem IH show ?thesis by auto
  next
    case notless: False
    show ?thesis
    proof (cases "ends ic r s a")
      case Nil
      with notless prem IH show ?thesis by auto
    next
      case (Cons k ks)
      show ?thesis
      proof (cases "k = a")
        case False
        then have "(i, j) = (a, k) \<or> (i, j) \<in> set (scan ic r s is k)"
          using prem notless Cons by simp
        then show ?thesis using IH Cons by auto
      next
        case True
        show ?thesis
        proof (cases "filter (\<lambda>x. x \<noteq> a) ks")
          case Nil
          then have "(i, j) = (a, a) \<or> (i, j) \<in> set (scan ic r s is nxt)"
            using prem notless Cons True by simp
          then show ?thesis using IH Cons True by auto
        next
          case f: (Cons k' ks')
          then have "k' \<in> set (filter (\<lambda>x. x \<noteq> a) ks)" by simp
          then have k': "k' \<in> set (ends ic r s a)" using Cons by simp
          have "(i, j) = (a, a) \<or> (i, j) = (a, k') \<or> (i, j) \<in> set (scan ic r s is k')"
            using prem notless Cons True f by simp
          then show ?thesis using IH Cons True k' by auto
        qed
      qed
    qed
  qed
qed

lemma re_search_match:
  assumes "re_search ic r s = Some (i, j)"
  shows "i \<le> length s \<and> j \<in> set (ends ic r s i)"
proof -
  have "(i, j) \<in> set (finditer ic r s)"
    using assms by (auto simp add: re_search_def split: list.splits)
  then have "i \<in> set [0 ..< Suc (length s)] \<and> j \<in> set (ends ic r s i)"
    unfolding finditer_def by (rule scan_matches)
  then show ?thesis by auto
qed

lemma slice_nonempty: "i < j \<Longrightarrow> j \<le> length s \<Longrightarrow> slice s i j \<noteq> []"
  by (simp add: slice_def)

section \<open>Properties of the aligner\<close>

lemma find_speaker_first_overlap:
  "find_speaker ds s = (case first_overlap ds s of None \<Rightarrow> default_speaker | Some d \<Rightarrow> ds_speaker d)"
  by (induction ds) (simp_all add: first_overlap_def)

lemma merged_segments_eq:
  "segments (merge_transcription_diarization t ds) =
     map (\<lambda>s. with_speaker s (find_speaker ds s)) (tr_segments t)"
  by (cases ds) (simp_all add: merge_transcription_diarization_def)

lemma tsegment_rebuild:
  "\<lparr>ts_start = ts_start x, ts_end = ts_end x, ts_text = ts_text x\<rparr> = (x :: 'a tsegment)"
  by (cases x) simp

lemma first_overlap_Some:
  "first_overlap ds s = Some d \<longleftrightarrow>
     (\<exists>i < length ds. ds ! i = d \<and> overlaps d s \<and> (\<forall>j < i. \<not> overlaps (ds ! j) s))"
  by (auto simp add: first_overlap_def find_Some_iff)

lemma first_overlap_None:
  "first_overlap ds s = None \<longleftrightarrow> (\<forall>d \<in> set ds. \<not> overlaps d s)"
  by (auto simp add: first_overlap_def find_None_iff)

text \<open>
  C1. For every transcription segment the aligner assigns the speaker of the first
  diarization interval, in input order, that strictly overlaps it
  (\<open>dia.start < seg.end\<close> and \<open>dia.end > seg.start\<close>); with an empty diarization list
  or no overlapping interval it assigns \<open>Speaker_0\<close>; so every output speaker is a
  diarization label or the sentinel.
\<close>

theorem C1_alignment:
  fixes t :: "'a::ord transcription" and ds :: "'a dsegment list"
  defines "out \<equiv> segments (merge_transcription_diarization t ds)"
  shows "length out = length (tr_segments t)
    \<and> (\<forall>k < length out.
          (let s = tr_segments t ! k; sp = ms_speaker (out ! k) in
            (\<forall>i < length ds. overlaps (ds ! i) s \<and> (\<forall>j < i. \<not> overlaps (ds ! j) s)
                 \<longrightarrow> sp = ds_speaker (ds ! i))
          \<and> ((\<forall>d \<in> set ds. \<not> overlaps d s) \<longrightarrow> sp = default_speaker)
          \<and> (sp = default_speaker \<or> sp \<in> ds_speaker ` set ds)))"
proof (intro conjI allI impI)
  show len: "length out = length (tr_segments t)"
    by (simp add: out_def merged_segments_eq)
  fix k assume k: "k < length out"
  define s where "s = tr_segments t ! k"
  have sp: "ms_speaker (out ! k) = find_speaker ds s"
    using k len by (simp add: out_def merged_segments_eq with_speaker_def s_def)
  have a: "\<forall>i < length ds. overlaps (ds ! i) s \<and> (\<forall>j < i. \<not> overlaps (ds ! j) s)
             \<longrightarrow> find_speaker ds s = ds_speaker (ds ! i)"
  proof (intro allI impI)
    fix i assume i: "i < length ds"
      and h: "overlaps (ds ! i) s \<and> (\<forall>j < i. \<not> overlaps (ds ! j) s)"
    then have "first_overlap ds s = Some (ds ! i)"
      unfolding first_overlap_Some by blast
    then show "find_speaker ds s = ds_speaker (ds ! i)"
      by (simp add: find_speaker_first_overlap)
  qed
  have b: "(\<forall>d \<in> set ds. \<not> overlaps d s) \<longrightarrow> find_speaker ds s = default_speaker"
  proof
    assume "\<forall>d \<in> set ds. \<not> overlaps d s"
    then have "first_overlap ds s = None"
      by (simp add: first_overlap_None)
    then show "find_speaker ds s = default_speaker"
      by (simp add: find_speaker_first_overlap)
  qed
  have c: "find_speaker ds s = default_speaker \<or> find_speaker ds s \<in> ds_speaker ` set ds"
  proof (cases "first_overlap ds s")
    case None
    then show ?thesis by (simp add: find_speaker_first_overlap)
  next
    case (Some d)
    then have "d \<in> set ds"
      unfolding first_overlap_Some by auto
    with Some show ?thesis by (simp add: find_speaker_first_overlap)
  qed
  show "let s = tr_segments t ! k; sp = ms_speaker (out ! k) in
            (\<forall>i < length ds. overlaps (ds ! i) s \<and> (\<forall>j < i. \<not> overlaps (ds ! j) s)
                 \<longrightarrow> sp = ds_speaker (ds ! i))
          \<and> ((\<forall>d \<in> set ds. \<not> overlaps d s) \<longrightarrow> sp = default_speaker)
          \<and> (sp = default_speaker \<or> sp \<in> ds_speaker ` set ds)"
    unfolding Let_def s_def [symmetric] sp using a b c by blast
qed

theorem C1_alignment_witness:
  "let t = \<lparr>tr_text = ''hi yo'',
              tr_segments = [\<lparr>ts_start = 0, ts_end = 5, ts_text = ''hi''\<rparr>,
                             \<lparr>ts_start = 10, ts_end = 12, ts_text = ''yo''\<rparr>],
              tr_language = None\<rparr>;
       ds = [\<lparr>ds_start = 4, ds_end = 9, ds_speaker = ''B''\<rparr>,
             \<lparr>ds_start = (0::int), ds_end = 6, ds_speaker = ''A''\<rparr>];
       out = segments (merge_transcription_diarization t ds)
   in length out = 2 \<and> ms_speaker (out ! 0) = ''B'' \<and> ms_speaker (out ! 1) = default_speaker"
  using C1_alignment [of
      "\<lparr>tr_text = ''hi yo'',
              tr_segments = [\<lparr>ts_start = 0, ts_end = 5, ts_text = ''hi''\<rparr>,
                             \<lparr>ts_start = 10, ts_end = 12, ts_text = ''yo''\<rparr>],
              tr_language = None\<rparr>"
      "[\<lparr>ds_start = 4, ds_end = 9, ds_speaker = ''B''\<rparr>,
        \<lparr>ds_start = (0::int), ds_end = 6, ds_speaker = ''A''\<rparr>]"]
  by (simp add: merge_transcription_diarization_def with_speaker_def overlaps_def)

text \<open>
  C9. The aligner's output has exactly one segment per input segment, in the same
  order, whose start, end and text are the input segment's; only the speaker is added.
\<close>

theorem C9_frame:
  "map (\<lambda>m. \<lparr>ts_start = ms_start m, ts_end = ms_end m, ts_text = ms_text m\<rparr>)
       (segments (merge_transcription_diarization t ds)) = tr_segments t"
  by (simp add: merged_segments_eq with_speaker_def comp_def tsegment_rebuild)

section \<open>Properties of the mention tracker\<close>

lemma successively_nth:
  "successively P xs \<Longrightarrow> Suc i < length xs \<Longrightarrow> P (xs ! i) (xs ! Suc i)"
proof (induction P xs arbitrary: i rule: successively.induct)
  case (3 P x y xs)
  then show ?case by (cases i) simp_all
qed simp_all

lemma sorted_drop_middle:
  "sorted (map f (xs @ y # ys)) \<Longrightarrow> sorted (map f (xs @ ys))"
  by (auto simp add: sorted_append)

lemma dedup_fold_invariant:
  assumes "acc \<noteq> []" "sorted (map position (acc @ rest))"
    "successively (\<lambda>a b. \<not> too_close a b) acc"
  shows "sorted (map position (foldl dedup_step acc rest))
       \<and> successively (\<lambda>a b. \<not> too_close a b) (foldl dedup_step acc rest)"
  using assms
proof (induction rest arbitrary: acc)
  case Nil
  then show ?case by simp
next
  case (Cons m rest)
  show ?case
  proof (cases "too_close (last acc) m")
    case True
    then have step: "dedup_step acc m = acc"
      by (simp add: dedup_step_def)
    have "sorted (map position (acc @ rest))"
      using Cons.prems(2) by (rule sorted_drop_middle)
    with Cons.IH [of acc] Cons.prems step show ?thesis by simp
  next
    case False
    then have step: "dedup_step acc m = acc @ [m]"
      by (simp add: dedup_step_def)
    have "successively (\<lambda>a b. \<not> too_close a b) (acc @ [m])"
      using Cons.prems(1,3) False by (simp add: successively_append_iff)
    moreover have "sorted (map position ((acc @ [m]) @ rest))"
      using Cons.prems(2) by simp
    ultimately show ?thesis
      using Cons.IH [of "acc @ [m]"] step by simp
  qed
qed

lemma deduplicate_mentions_invariant:
  "sorted (map position (deduplicate_mentions ms))
   \<and> successively (\<lambda>a b. \<not> too_close a b) (deduplicate_mentions ms)"
proof (cases "sort_key position ms")
  case Nil
  then show ?thesis by (simp add: deduplicate_mentions_def)
next
  case (Cons m rest)
  have "sorted (map position (sort_key position ms))"
    by simp
  then have "sorted (map position ([m] @ rest))"
    using Cons by simp
  then show ?thesis
    using dedup_fold_invariant [of "[m]" rest] Cons
    by (simp add: deduplicate_mentions_def)
qed

text \<open>
  C2. For every mention list, the deduplicated list is sorted ascending by position and
  no two consecutive retained mentions satisfy
  \<open>next.position < previous.end_position + 5\<close>; the same holds of the list that
  \<open>_find_mentions\<close> returns, for every transcript and every list of variations.
\<close>

theorem C2_dedup_invariant:
  fixes ms :: "mention list" and transcript :: string and name_variations :: "string list"
  defines "out \<equiv> deduplicate_mentions ms"
    and "found \<equiv> find_mentions transcript name_variations"
  shows "sorted (map position out)
     \<and> (\<forall>i. Suc i < length out \<longrightarrow> \<not> position (out ! Suc i) < end_position (out ! i) + 5)
     \<and> sorted (map position found)
     \<and> (\<forall>i. Suc i < length found \<longrightarrow>
            \<not> position (found ! Suc i) < end_position (found ! i) + 5)"
proof -
  have eq: "found = deduplicate_mentions (candidates transcript name_variations)"
    unfolding found_def find_mentions_def
    using deduplicate_mentions_invariant [of "candidates transcript name_variations"]
    by (simp add: sort_key_id_if_sorted)
  have a: "sorted (map position out)"
    and b: "\<forall>i. Suc i < length out \<longrightarrow> \<not> position (out ! Suc i) < end_position (out ! i) + 5"
    unfolding out_def
    using deduplicate_mentions_invariant [of ms] successively_nth by blast+
  have c: "sorted (map position found)"
    and d: "\<forall>i. Suc i < length found \<longrightarrow>
              \<not> position (found ! Suc i) < end_position (found ! i) + 5"
    unfolding eq
    using deduplicate_mentions_invariant [of "candidates transcript name_variations"]
      successively_nth by blast+
  show ?thesis using a b c d by blast
qed

theorem C2_dedup_invariant_witness:
  "length (find_mentions ''Al al xxxxxx al'' [''al'']) = 2
   \<and> sorted (map position (find_mentions ''Al al xxxxxx al'' [''al'']))
   \<and> \<not> position (find_mentions ''Al al xxxxxx al'' [''al''] ! Suc 0)
          < end_position (find_mentions ''Al al xxxxxx al'' [''al''] ! 0) + 5"
proof -
  define found where "found = find_mentions ''Al al xxxxxx al'' [''al'']"
  have e: "map (\<lambda>m. (position m, end_position m)) found = [(0, 2), (13, 15)]"
    unfolding found_def by code_simp
  have l: "length found = 2"
    using arg_cong [OF e, of length] by simp
  have "sorted (map position found)
     \<and> (\<forall>i. Suc i < length found \<longrightarrow>
            \<not> position (found ! Suc i) < end_position (found ! i) + 5)"
    unfolding found_def
    using C2_dedup_invariant [of "[]" "''Al al xxxxxx al''" "[''al'']"] by blast
  then show ?thesis
    unfolding found_def [symmetric] using l by simp
qed

section \<open>The highlighting round trip\<close>

lemma drop_tags_skip: "drop_tags tags k s = drop_tags tags 0 (drop k s)"
proof (induction s arbitrary: k)
  case Nil
  then show ?case by simp
next
  case (Cons c cs)
  then show ?case by (cases k) simp_all
qed

lemma drop_tags_tag:
  assumes "tag \<noteq> []" "find (\<lambda>g. prefix g (tag @ R)) tags = Some tag"
  shows "drop_tags tags 0 (tag @ R) = drop_tags tags 0 R"
proof -
  obtain c tg where tag: "tag = c # tg" using assms(1) by (cases tag) auto
  have "drop_tags tags 0 (tag @ R) = drop_tags tags (length tg) (tg @ R)"
    using assms(2) by (simp add: tag)
  also have "\<dots> = drop_tags tags 0 (drop (length tg) (tg @ R))"
    by (rule drop_tags_skip)
  finally show ?thesis by simp
qed

lemma drop_tags_pass:
  "(\<forall>i<length A. \<forall>g\<in>set tags. \<not> prefix g (drop i A @ R))
     \<Longrightarrow> drop_tags tags 0 (A @ R) = A @ drop_tags tags 0 R"
proof (induction A)
  case Nil
  then show ?case by simp
next
  case (Cons a A)
  have "\<forall>g\<in>set tags. \<not> prefix g ((a # A) @ R)"
    using Cons.prems [rule_format, of 0] by simp
  then have none: "find (\<lambda>g. prefix g (a # A @ R)) tags = None"
    by (simp add: find_None_iff)
  have "\<forall>i<length A. \<forall>g\<in>set tags. \<not> prefix g (drop i A @ R)"
  proof (intro allI impI)
    fix i assume "i < length A"
    then have "Suc i < length (a # A)" by simp
    from Cons.prems [rule_format, OF this] show "\<forall>g\<in>set tags. \<not> prefix g (drop i A @ R)"
      by simp
  qed
  with Cons.IH have "drop_tags tags 0 (A @ R) = A @ drop_tags tags 0 R" by simp
  with none show ?case by simp
qed

lemma contains_mid: "contains (pre @ g @ post) g"
proof (induction pre)
  case Nil
  have p: "prefix g (g @ post)" by simp
  show ?case
  proof (cases "g @ post")
    case Nil
    then show ?thesis by simp
  next
    case (Cons a l)
    with p have "prefix g (a # l)" by simp
    with Cons show ?thesis by simp
  qed
next
  case (Cons c pre)
  then show ?case by simp
qed

lemma piece_clean:
  assumes "\<not> contains t g" "CHR ''['' \<notin> set (tl g)" "t = pre @ A @ post"
    "R = [] \<or> hd R = CHR ''[''" "i < length A"
  shows "\<not> prefix g (drop i A @ R)"
proof
  assume pf: "prefix g (drop i A @ R)"
  let ?B = "drop i A"
  have Bne: "?B \<noteq> []" using assms(5) by simp
  show False
  proof (cases "prefix g ?B")
    case True
    then obtain w where w: "?B = g @ w" by (auto simp add: prefix_def)
    have "A = take i A @ ?B" by simp
    then have "t = (pre @ take i A) @ g @ (w @ post)"
      using assms(3) w by (metis append_assoc)
    then have "contains t g" using contains_mid [of "pre @ take i A" g "w @ post"] by simp
    with assms(1) show False by simp
  next
    case False
    with pf obtain us where over: "g = ?B @ us" "prefix us R"
      by (auto simp add: prefix_append)
    with False have "us \<noteq> []" by auto
    note over = over this
    then have "R \<noteq> []" by auto
    then have "hd R = CHR ''[''" using assms(4) by simp
    moreover have "hd R = hd us" using over(2,3) by (auto simp add: prefix_def)
    moreover have "hd us \<in> set us" using over(3) by simp
    moreover have "tl g = tl ?B @ us" using over(1) Bne by simp
    ultimately have "CHR ''['' \<in> set (tl g)" by simp
    with assms(2) show False by simp
  qed
qed

lemma tag_clean:
  assumes "hd g = CHR ''[''" "g \<noteq> []" "CHR ''['' \<notin> set (tl A)" "\<not> prefix g (A @ Y)"
    "i < length A"
  shows "\<not> prefix g (drop i A @ Y)"
proof (cases i)
  case 0
  then show ?thesis using assms(4) by simp
next
  case (Suc j)
  then have d: "drop i A = drop j (tl A)" by (simp add: drop_Suc)
  have ne: "drop j (tl A) \<noteq> []" using assms(5) Suc by simp
  then have "hd (drop j (tl A)) \<in> set (tl A)"
    by (meson hd_in_set in_set_dropD)
  then have "hd (drop i A @ Y) \<noteq> CHR ''[''" using assms(3) ne d by auto
  moreover have "prefix g (drop i A @ Y) \<Longrightarrow> hd (drop i A @ Y) = hd g"
    using assms(2) by (auto simp add: prefix_def)
  ultimately show ?thesis using assms(1) by auto
qed

lemma insort_key_last: "\<forall>y\<in>set acc. f y < f x \<Longrightarrow> insort_key f x acc = acc @ [x]"
  by (induction acc) auto

lemma foldr_insort_rev:
  "sorted_wrt (\<lambda>a b. f a < f b) (acc @ xs) \<Longrightarrow> foldr (insort_key f) (rev xs) acc = acc @ xs"
proof (induction xs arbitrary: acc)
  case Nil
  then show ?case by simp
next
  case (Cons x xs)
  have "\<forall>y\<in>set acc. f y < f x" using Cons.prems by (auto simp add: sorted_wrt_append)
  then have "insort_key f x acc = acc @ [x]" by (rule insort_key_last)
  moreover have "sorted_wrt (\<lambda>a b. f a < f b) ((acc @ [x]) @ xs)" using Cons.prems by simp
  ultimately show ?case using Cons.IH [of "acc @ [x]"] by simp
qed

lemma sort_key_rev_strict:
  "sorted_wrt (\<lambda>a b. f a < f b) xs \<Longrightarrow> sort_key f (rev xs) = xs"
  using foldr_insort_rev [of f "[]" xs] by (simp add: sort_key_def)

lemma gaps_strict:
  "successively (\<lambda>a b. \<not> too_close a b) ms \<Longrightarrow> \<forall>m\<in>set ms. position m \<le> end_position m
     \<Longrightarrow> sorted_wrt (\<lambda>a b. position a < position b) ms"
proof (induction "\<lambda>a b. \<not> too_close a b" ms rule: successively.induct)
  case (3 x y xs)
  then have "sorted_wrt (\<lambda>a b. position a < position b) (y # xs)" by simp
  moreover have "position x < position y" using 3 by simp
  ultimately show ?case by fastforce
qed simp_all


lemma open_tag_shape:
  "hd open_tag = CHR ''[''" "open_tag \<noteq> []" "CHR ''['' \<notin> set (tl open_tag)"
  by (simp_all add: open_tag_def)

lemma close_tag_shape:
  "hd close_tag = CHR ''[''" "close_tag \<noteq> []" "CHR ''['' \<notin> set (tl close_tag)"
  by (simp_all add: close_tag_def)

lemma tags_differ:
  "\<not> prefix open_tag (close_tag @ Y)" "\<not> prefix close_tag (open_tag @ Y)"
  by (simp_all add: open_tag_def close_tag_def)

lemma piece_pass:
  assumes "\<not> contains t open_tag" "\<not> contains t close_tag" "t = pre @ A @ post"
    "R = [] \<or> hd R = CHR ''[''" "set tags \<subseteq> {open_tag, close_tag}"
  shows "drop_tags tags 0 (A @ R) = A @ drop_tags tags 0 R"
proof (rule drop_tags_pass, intro allI impI ballI)
  fix i g assume i: "i < length A" and "g \<in> set tags"
  then have "g = open_tag \<or> g = close_tag" using assms(5) by auto
  then show "\<not> prefix g (drop i A @ R)"
  proof
    assume "g = open_tag"
    then show ?thesis
      using piece_clean [OF assms(1) open_tag_shape(3) assms(3,4) i] by simp
  next
    assume "g = close_tag"
    then show ?thesis
      using piece_clean [OF assms(2) close_tag_shape(3) assms(3,4) i] by simp
  qed
qed

lemma hd_open: "hd (open_tag @ R) = CHR ''[''"
  by (simp add: open_tag_def)

lemma hd_close: "hd (close_tag @ R) = CHR ''[''"
  by (simp add: close_tag_def)

lemma strip_open: "strip_markers (open_tag @ R) = strip_markers R"
  unfolding strip_markers_def
  by (rule drop_tags_tag) (simp_all add: open_tag_shape)

lemma strip_close: "strip_markers (close_tag @ R) = strip_markers R"
  unfolding strip_markers_def
  by (rule drop_tags_tag) (simp_all add: close_tag_shape tags_differ)

lemma remove_open: "drop_tags [open_tag] 0 (open_tag @ R) = drop_tags [open_tag] 0 R"
  by (rule drop_tags_tag) (simp_all add: open_tag_shape)

lemma remove_close: "drop_tags [close_tag] 0 (close_tag @ R) = drop_tags [close_tag] 0 R"
  by (rule drop_tags_tag) (simp_all add: close_tag_shape)

lemma keep_close: "drop_tags [open_tag] 0 (close_tag @ Y) = close_tag @ drop_tags [open_tag] 0 Y"
proof (rule drop_tags_pass, intro allI impI ballI)
  fix i g assume "i < length close_tag" and "g \<in> set [open_tag]"
  then show "\<not> prefix g (drop i close_tag @ Y)"
    using tag_clean [OF open_tag_shape(1,2) close_tag_shape(3) tags_differ(1), of i Y] by simp
qed

lemma unit_strip:
  assumes tf: "\<not> contains t open_tag" "\<not> contains t close_tag"
    and t: "t = pre @ A @ M @ post"
  shows "strip_markers (A @ open_tag @ M @ close_tag @ Y) = A @ M @ strip_markers Y"
proof -
  have tA: "t = pre @ A @ (M @ post)" and tM: "t = (pre @ A) @ M @ post"
    using t by simp_all
  have "strip_markers (A @ open_tag @ M @ close_tag @ Y)
      = A @ strip_markers (open_tag @ M @ close_tag @ Y)"
    unfolding strip_markers_def
    by (rule piece_pass [OF tf tA]) (simp_all add: hd_open)
  also have "strip_markers (open_tag @ M @ close_tag @ Y) = strip_markers (M @ close_tag @ Y)"
    by (rule strip_open)
  also have "strip_markers (M @ close_tag @ Y) = M @ strip_markers (close_tag @ Y)"
    unfolding strip_markers_def
    by (rule piece_pass [OF tf tM]) (simp_all add: hd_close)
  also have "strip_markers (close_tag @ Y) = strip_markers Y"
    by (rule strip_close)
  finally show ?thesis .
qed

lemma unit_replace:
  assumes tf: "\<not> contains t open_tag" "\<not> contains t close_tag"
    and t: "t = pre @ A @ M @ post"
  shows "replace_markers (A @ open_tag @ M @ close_tag @ Y) = A @ M @ replace_markers Y"
proof -
  have tA: "t = pre @ A @ (M @ post)" and tM: "t = (pre @ A) @ M @ post"
    and tAM: "t = pre @ (A @ M) @ post"
    using t by simp_all
  let ?Z = "drop_tags [open_tag] 0 Y"
  have "drop_tags [open_tag] 0 (A @ open_tag @ M @ close_tag @ Y)
      = A @ drop_tags [open_tag] 0 (open_tag @ M @ close_tag @ Y)"
    by (rule piece_pass [OF tf tA]) (simp_all add: hd_open)
  also have "drop_tags [open_tag] 0 (open_tag @ M @ close_tag @ Y)
      = drop_tags [open_tag] 0 (M @ close_tag @ Y)"
    by (rule remove_open)
  also have "drop_tags [open_tag] 0 (M @ close_tag @ Y)
      = M @ drop_tags [open_tag] 0 (close_tag @ Y)"
    by (rule piece_pass [OF tf tM]) (simp_all add: hd_close)
  also have "drop_tags [open_tag] 0 (close_tag @ Y) = close_tag @ ?Z"
    by (rule keep_close)
  finally have one: "drop_tags [open_tag] 0 (A @ open_tag @ M @ close_tag @ Y)
      = (A @ M) @ close_tag @ ?Z"
    by simp
  have "drop_tags [close_tag] 0 ((A @ M) @ close_tag @ ?Z)
      = (A @ M) @ drop_tags [close_tag] 0 (close_tag @ ?Z)"
    by (rule piece_pass [OF tf tAM]) (simp_all add: hd_close)
  also have "drop_tags [close_tag] 0 (close_tag @ ?Z) = drop_tags [close_tag] 0 ?Z"
    by (rule remove_close)
  finally show ?thesis
    unfolding replace_markers_def one by simp
qed

lemma clean_suffix:
  assumes tf: "\<not> contains t open_tag" "\<not> contains t close_tag"
  shows "strip_markers (drop q t) = drop q t" "replace_markers (drop q t) = drop q t"
proof -
  have t: "t = take q t @ drop q t @ []" by simp
  have a: "\<And>tags. set tags \<subseteq> {open_tag, close_tag}
     \<Longrightarrow> drop_tags tags 0 (drop q t) = drop q t"
    using piece_pass [OF tf t, of "[]"] by simp
  show "strip_markers (drop q t) = drop q t"
    unfolding strip_markers_def by (rule a) simp
  have "drop_tags [open_tag] 0 (drop q t) = drop q t" by (rule a) simp
  moreover have "drop_tags [close_tag] 0 (drop q t) = drop q t" by (rule a) simp
  ultimately show "replace_markers (drop q t) = drop q t"
    unfolding replace_markers_def by simp
qed

lemma highlight_invariant:
  assumes tf: "\<not> contains t open_tag" "\<not> contains t close_tag"
    and "successively (\<lambda>a b. \<not> too_close a b) ms"
    and "\<forall>m\<in>set ms. 0 \<le> position m \<and> position m \<le> end_position m
           \<and> position m \<le> int (length t)
           \<and> matched_text m = slice t (nat (position m)) (nat (end_position m))"
    and "ms \<noteq> [] \<longrightarrow> int p \<le> position (hd ms)"
  shows "take p (foldr (\<lambda>m h. highlight_step h m) ms t) = take p t
     \<and> (\<forall>q\<le>p. strip_markers (drop q (foldr (\<lambda>m h. highlight_step h m) ms t)) = drop q t
              \<and> replace_markers (drop q (foldr (\<lambda>m h. highlight_step h m) ms t)) = drop q t)"
  using assms(3-)
proof (induction ms arbitrary: p)
  case Nil
  show ?case using clean_suffix [OF tf] by simp
next
  case (Cons m ms)
  define a where "a = nat (position m)"
  define b where "b = nat (end_position m)"
  define h where "h = foldr (\<lambda>m h. highlight_step h m) ms t"
  define M where "M = slice t a b"
  have m: "0 \<le> position m" "position m \<le> end_position m" "position m \<le> int (length t)"
    "matched_text m = M"
    using Cons.prems(2) by (simp_all add: M_def a_def b_def)
  have pa: "p \<le> a" using Cons.prems(3) by (simp add: a_def)
  have ab: "a \<le> b" using m(1,2) by (simp add: a_def b_def)
  have al: "a \<le> length t" using m(1,3) by (simp add: a_def)
  have next_ok: "ms \<noteq> [] \<longrightarrow> int b \<le> position (hd ms)"
  proof
    assume "ms \<noteq> []"
    then obtain m' rest where "ms = m' # rest" by (cases ms) auto
    then show "int b \<le> position (hd ms)"
      using Cons.prems(1) m(1,2) by (simp add: b_def)
  qed
  have succ: "successively (\<lambda>a b. \<not> too_close a b) ms"
    using Cons.prems(1) by (cases ms) simp_all
  have rest: "\<forall>m\<in>set ms. 0 \<le> position m \<and> position m \<le> end_position m
           \<and> position m \<le> int (length t)
           \<and> matched_text m = slice t (nat (position m)) (nat (end_position m))"
    using Cons.prems(2) by simp
  from Cons.IH [OF succ rest next_ok]
  have ih1: "take b h = take b t"
    and ih2: "strip_markers (drop b h) = drop b t"
    and ih3: "replace_markers (drop b h) = drop b t"
    by (simp_all add: h_def)
  have "take a h = take a (take b h)" using ab by (simp add: min_def)
  also have "\<dots> = take a t" using ab by (simp add: ih1 min_def)
  finally have ta: "take a h = take a t" .
  have "0 \<le> end_position m" using m(1,2) by simp
  then have "highlight_step h m = take a h @ open_tag @ M @ close_tag @ drop b h"
    using m(1,4) by (simp add: highlight_step_def py_upto_def py_from_def a_def b_def)
  moreover have "foldr (\<lambda>m h. highlight_step h m) (m # ms) t = highlight_step h m"
    by (simp add: h_def)
  ultimately have step: "foldr (\<lambda>m h. highlight_step h m) (m # ms) t
      = take a t @ open_tag @ M @ close_tag @ drop b h"
    using ta by simp
  have Mpost: "drop a t = M @ drop b t"
  proof -
    have "drop a t = take (b - a) (drop a t) @ drop (b - a) (drop a t)"
      by (rule append_take_drop_id [symmetric])
    also have "drop (b - a) (drop a t) = drop b t" using ab by simp
    finally show ?thesis by (simp add: M_def slice_def)
  qed
  have "take p (take a t @ open_tag @ M @ close_tag @ drop b h) = take p t"
    using pa al by (simp add: min_def)
  moreover have "strip_markers (drop q (take a t @ open_tag @ M @ close_tag @ drop b h)) = drop q t
      \<and> replace_markers (drop q (take a t @ open_tag @ M @ close_tag @ drop b h)) = drop q t"
    if "q \<le> p" for q
  proof -
    define A where "A = drop q (take a t)"
    have qa: "q \<le> a" using that pa by simp
    have d: "drop q (take a t @ open_tag @ M @ close_tag @ drop b h)
        = A @ open_tag @ M @ close_tag @ drop b h"
      using qa al by (simp add: A_def)
    have e1: "take a t = take q (take a t) @ A"
      unfolding A_def by (rule append_take_drop_id [symmetric])
    have e2: "take q (take a t) = take q t" using qa by (simp add: min_def)
    have "take a t = take q t @ A" by (rule e1 [unfolded e2])
    then have "t = take q t @ A @ drop a t"
      using append_take_drop_id [of a t] by (metis append_assoc)
    then have t: "t = take q t @ A @ M @ drop b t" using Mpost by simp
    have "drop q t = drop q (take q t @ A @ M @ drop b t)" using t by simp
    also have "\<dots> = A @ M @ drop b t" using qa al by simp
    finally have dq: "drop q t = A @ M @ drop b t" .
    show ?thesis
      unfolding d unit_strip [OF tf t] unit_replace [OF tf t] ih2 ih3 dq by simp
  qed
  ultimately show ?case unfolding step by blast
qed

lemma foldl_dedup_subset: "set (foldl dedup_step acc rest) \<subseteq> set acc \<union> set rest"
proof (induction rest arbitrary: acc)
  case Nil
  then show ?case by simp
next
  case (Cons m rest)
  have "set (dedup_step acc m) \<subseteq> set acc \<union> {m}"
    by (auto simp add: dedup_step_def)
  with Cons [of "dedup_step acc m"] show ?case by auto
qed

lemma deduplicate_subset: "set (deduplicate_mentions ms) \<subseteq> set ms"
proof (cases "sort_key position ms")
  case Nil
  then show ?thesis by (simp add: deduplicate_mentions_def)
next
  case (Cons m rest)
  have "set (m # rest) = set ms" using Cons [symmetric] by simp
  moreover have "set (foldl dedup_step [m] rest) \<subseteq> set [m] \<union> set rest"
    by (rule foldl_dedup_subset)
  ultimately show ?thesis using Cons by (auto simp add: deduplicate_mentions_def)
qed

lemma candidate_span:
  assumes "m \<in> set (candidates t vs)"
  shows "0 \<le> position m \<and> position m \<le> end_position m
       \<and> position m \<le> int (length t)
       \<and> matched_text m = slice t (nat (position m)) (nat (end_position m))"
proof -
  from assms obtain v i j where ij: "(i, j) \<in> set (finditer True (word_pattern v) t)"
    and m: "m = make_mention t v (i, j)"
    by (auto simp add: candidates_def)
  from ij have "i \<in> set [0 ..< Suc (length t)] \<and> j \<in> set (ends True (word_pattern v) t i)"
    unfolding finditer_def by (rule scan_matches)
  then have "i \<le> length t" "i + min_len (word_pattern v) \<le> j"
    using ends_min_len by auto
  then show ?thesis by (simp add: m make_mention_def)
qed

lemma find_mentions_dedup:
  "find_mentions t vs = deduplicate_mentions (candidates t vs)"
  unfolding find_mentions_def
  using deduplicate_mentions_invariant [of "candidates t vs"]
  by (simp add: sort_key_id_if_sorted)

lemma found_span:
  assumes "m \<in> set (find_mentions t vs)"
  shows "0 \<le> position m \<and> position m \<le> end_position m
       \<and> position m \<le> int (length t)
       \<and> matched_text m = slice t (nat (position m)) (nat (end_position m))"
proof -
  have "m \<in> set (candidates t vs)"
    using assms deduplicate_subset unfolding find_mentions_dedup by blast
  then show ?thesis by (rule candidate_span)
qed

lemma build_foldr:
  assumes "successively (\<lambda>a b. \<not> too_close a b) ms"
    and "\<forall>m\<in>set ms. position m \<le> end_position m"
  shows "build_highlighted_transcript t ms = foldr (\<lambda>m h. highlight_step h m) ms t"
proof -
  have "sorted_wrt (\<lambda>a b. position a < position b) ms"
    using assms by (rule gaps_strict)
  then have "sort_key position (rev ms) = ms" by (rule sort_key_rev_strict)
  then have "sorted_desc ms = rev ms" by (simp add: sorted_desc_def)
  then show ?thesis
    by (simp add: build_highlighted_transcript_def foldr_conv_foldl)
qed

lemma round_trip:
  assumes tf: "\<not> contains t open_tag" "\<not> contains t close_tag"
    and succ: "successively (\<lambda>a b. \<not> too_close a b) ms"
    and spans: "\<forall>m\<in>set ms. 0 \<le> position m \<and> position m \<le> end_position m
           \<and> position m \<le> int (length t)
           \<and> matched_text m = slice t (nat (position m)) (nat (end_position m))"
  shows "strip_markers (build_highlighted_transcript t ms) = t
       \<and> replace_markers (build_highlighted_transcript t ms) = t"
proof -
  have b: "build_highlighted_transcript t ms = foldr (\<lambda>m h. highlight_step h m) ms t"
    using succ spans by (intro build_foldr) auto
  have "ms \<noteq> [] \<longrightarrow> int 0 \<le> position (hd ms)" using spans by simp
  from highlight_invariant [OF tf succ spans this] show ?thesis
    unfolding b by simp
qed

text \<open>
  C3, as amended. Let the transcript contain neither \<open>[MENTION]\<close> nor \<open>[/MENTION]\<close>.
  Then removing the markers from the highlighted transcript gives back the transcript,
  under both readings of the removal: for every position-sorted, deduplicated mention list
  whose entries have \<open>0 \<le> position \<le> end_position\<close>, \<open>position \<le> len(transcript)\<close> and
  \<open>matched_text = transcript[position:end_position]\<close>, and in particular for the mention
  list that \<open>_find_mentions\<close> returns on the transcript, for every list of variations.
\<close>

theorem C3_round_trip:
  assumes "\<not> contains transcript open_tag" "\<not> contains transcript close_tag"
  shows "(sorted (map position ms)
          \<and> (\<forall>i. Suc i < length ms \<longrightarrow> \<not> position (ms ! Suc i) < end_position (ms ! i) + 5)
          \<and> (\<forall>m\<in>set ms. 0 \<le> position m \<and> position m \<le> end_position m
                \<and> position m \<le> int (length transcript)
                \<and> matched_text m
                    = slice transcript (nat (position m)) (nat (end_position m)))
          \<longrightarrow> strip_markers (build_highlighted_transcript transcript ms) = transcript
            \<and> replace_markers (build_highlighted_transcript transcript ms) = transcript)
     \<and> strip_markers (build_highlighted_transcript transcript
            (find_mentions transcript name_variations)) = transcript
     \<and> replace_markers (build_highlighted_transcript transcript
            (find_mentions transcript name_variations)) = transcript"
proof -
  have a: "strip_markers (build_highlighted_transcript transcript ms) = transcript
         \<and> replace_markers (build_highlighted_transcript transcript ms) = transcript"
    if gaps: "\<forall>i. Suc i < length ms \<longrightarrow> \<not> position (ms ! Suc i) < end_position (ms ! i) + 5"
      and spans: "\<forall>m\<in>set ms. 0 \<le> position m \<and> position m \<le> end_position m
                \<and> position m \<le> int (length transcript)
                \<and> matched_text m
                    = slice transcript (nat (position m)) (nat (end_position m))"
  proof -
    have "successively (\<lambda>a b. \<not> too_close a b) ms"
      using gaps by (simp add: successively_conv_nth)
    then show ?thesis using spans by (intro round_trip assms)
  qed
  let ?found = "find_mentions transcript name_variations"
  have "successively (\<lambda>a b. \<not> too_close a b) ?found"
    unfolding find_mentions_dedup by (simp add: deduplicate_mentions_invariant)
  moreover have "\<forall>m\<in>set ?found. 0 \<le> position m \<and> position m \<le> end_position m
                \<and> position m \<le> int (length transcript)
                \<and> matched_text m
                    = slice transcript (nat (position m)) (nat (end_position m))"
    using found_span by blast
  ultimately have b: "strip_markers (build_highlighted_transcript transcript ?found) = transcript
         \<and> replace_markers (build_highlighted_transcript transcript ?found) = transcript"
    by (intro round_trip assms)
  show ?thesis using a b by blast
qed

text \<open>
  The claim as stated fails. A transcript that contains a marker loses it: for the user
  \<open>Al\<close> and the transcript \<open>[MENTION] Al\<close> the tracker finds one mention, at 10 to 12, and
  the highlighted transcript without its markers is \<open> Al\<close>. A mention list can also meet
  the conditions of the claim with a span that does not lie in the transcript:
  on \<open>abcd\<close>, the empty matched text is \<open>transcript[3:1]\<close>, \<open>transcript[-2:1]\<close>,
  \<open>transcript[10:10]\<close> and \<open>transcript[15:15]\<close>, and the round trip gives \<open>abcbcd\<close>,
  \<open>abbcd\<close> and \<open>abcd[MENTION]\<close>.
\<close>

theorem C3_counterexample:
  "find_mentions ''[MENTION] Al'' [''al'']
     = [\<lparr>variation = ''al'', matched_text = ''Al'', position = 10, end_position = 12,
          mcontext = ''[MENTION] Al''\<rparr>]
   \<and> slice ''[MENTION] Al'' 10 12 = ''Al''
   \<and> build_highlighted_transcript ''[MENTION] Al'' (find_mentions ''[MENTION] Al'' [''al''])
       = ''[MENTION] [MENTION]Al[/MENTION]''
   \<and> strip_markers (build_highlighted_transcript ''[MENTION] Al''
          (find_mentions ''[MENTION] Al'' [''al''])) = '' Al''
   \<and> replace_markers (build_highlighted_transcript ''[MENTION] Al''
          (find_mentions ''[MENTION] Al'' [''al''])) = '' Al''
   \<and> strip_markers (build_highlighted_transcript ''abcd''
          [\<lparr>variation = ''x'', matched_text = '''', position = 3, end_position = 1,
            mcontext = ''abcd''\<rparr>]) = ''abcbcd''
   \<and> replace_markers (build_highlighted_transcript ''abcd''
          [\<lparr>variation = ''x'', matched_text = '''', position = 3, end_position = 1,
            mcontext = ''abcd''\<rparr>]) = ''abcbcd''
   \<and> strip_markers (build_highlighted_transcript ''abcd''
          [\<lparr>variation = ''x'', matched_text = '''', position = - 2, end_position = 1,
            mcontext = ''abcd''\<rparr>]) = ''abbcd''
   \<and> replace_markers (build_highlighted_transcript ''abcd''
          [\<lparr>variation = ''x'', matched_text = '''', position = - 2, end_position = 1,
            mcontext = ''abcd''\<rparr>]) = ''abbcd''
   \<and> strip_markers (build_highlighted_transcript ''abcd''
          [\<lparr>variation = ''x'', matched_text = '''', position = 10, end_position = 10,
            mcontext = ''abcd''\<rparr>,
           \<lparr>variation = ''x'', matched_text = '''', position = 15, end_position = 15,
            mcontext = ''abcd''\<rparr>]) = ''abcd[MENTION]''
   \<and> replace_markers (build_highlighted_transcript ''abcd''
          [\<lparr>variation = ''x'', matched_text = '''', position = 10, end_position = 10,
            mcontext = ''abcd''\<rparr>,
           \<lparr>variation = ''x'', matched_text = '''', position = 15, end_position = 15,
            mcontext = ''abcd''\<rparr>]) = ''abcd[MENTION]''"
  by code_simp

theorem C3_round_trip_witness:
  "\<not> contains ''Hi Al.'' open_tag \<and> \<not> contains ''Hi Al.'' close_tag
   \<and> strip_markers (build_highlighted_transcript ''Hi Al.''
          [\<lparr>variation = ''al'', matched_text = ''Al'', position = 3, end_position = 5,
            mcontext = ''Hi Al.''\<rparr>]) = ''Hi Al.''
   \<and> replace_markers (build_highlighted_transcript ''Hi Al.''
          [\<lparr>variation = ''al'', matched_text = ''Al'', position = 3, end_position = 5,
            mcontext = ''Hi Al.''\<rparr>]) = ''Hi Al.''"
proof -
  define ms where "ms = [\<lparr>variation = ''al'', matched_text = ''Al'', position = 3,
      end_position = 5, mcontext = ''Hi Al.''\<rparr>]"
  have tf1: "\<not> contains ''Hi Al.'' open_tag" by code_simp
  have tf2: "\<not> contains ''Hi Al.'' close_tag" by code_simp
  have hyp: "sorted (map position ms)
      \<and> (\<forall>i. Suc i < length ms \<longrightarrow> \<not> position (ms ! Suc i) < end_position (ms ! i) + 5)
      \<and> (\<forall>m\<in>set ms. 0 \<le> position m \<and> position m \<le> end_position m
            \<and> position m \<le> int (length ''Hi Al.'')
            \<and> matched_text m = slice ''Hi Al.'' (nat (position m)) (nat (end_position m)))"
    by (simp add: ms_def slice_def)
  from C3_round_trip [OF tf1 tf2, of ms "[]"]
  have "sorted (map position ms)
      \<and> (\<forall>i. Suc i < length ms \<longrightarrow> \<not> position (ms ! Suc i) < end_position (ms ! i) + 5)
      \<and> (\<forall>m\<in>set ms. 0 \<le> position m \<and> position m \<le> end_position m
            \<and> position m \<le> int (length ''Hi Al.'')
            \<and> matched_text m = slice ''Hi Al.'' (nat (position m)) (nat (end_position m)))
      \<longrightarrow> strip_markers (build_highlighted_transcript ''Hi Al.'' ms) = ''Hi Al.''
        \<and> replace_markers (build_highlighted_transcript ''Hi Al.'' ms) = ''Hi Al.''"
    by (elim conjE)
  from this hyp
  have "strip_markers (build_highlighted_transcript ''Hi Al.'' ms) = ''Hi Al.''
        \<and> replace_markers (build_highlighted_transcript ''Hi Al.'' ms) = ''Hi Al.''"
    by (rule mp)
  then show ?thesis
    unfolding ms_def by (rule conjI [OF tf1 conjI [OF tf2]])
qed

section \<open>Properties of the action item extractor\<close>

lemma min_len_lit: "min_len (lit s) = length s"
  by (induction s) (simp_all add: lit_def)

lemma min_len_alts: "rs \<noteq> [] \<Longrightarrow> \<forall>r \<in> set rs. n \<le> min_len r \<Longrightarrow> n \<le> min_len (alts rs)"
  by (induction rs rule: alts.induct) simp_all

lemma min_len_alts_lit:
  "ws \<noteq> [] \<Longrightarrow> \<forall>w \<in> set ws. w \<noteq> [] \<Longrightarrow> 1 \<le> min_len (alts (map lit ws))"
  by (rule min_len_alts) (auto simp add: min_len_lit Suc_le_eq)

lemma date_patterns_min_len: "p \<in> set date_patterns \<Longrightarrow> 1 \<le> min_len p"
proof -
  have a: "1 \<le> min_len (alts (map lit weekdays))"
    by (rule min_len_alts_lit) (simp_all add: weekdays_def)
  have b: "1 \<le> min_len (alts (map lit relative_days))"
    by (rule min_len_alts_lit) (simp_all add: relative_days_def)
  assume "p \<in> set date_patterns"
  then consider "p = date_patterns ! 0" | "p = date_patterns ! 1"
    | "p = date_patterns ! 2" | "p = date_patterns ! 3"
    by (auto simp add: date_patterns_def)
  then show ?thesis
  proof cases
    case 1 then show ?thesis using a by (simp add: date_patterns_def)
  next
    case 2 then show ?thesis using b by (simp add: date_patterns_def)
  next
    case 3 then show ?thesis by (simp add: date_patterns_def)
  next
    case 4 then show ?thesis by (simp add: date_patterns_def)
  qed
qed

lemma first_date_Some:
  assumes "first_date ps t = Some d" "\<forall>p \<in> set ps. 1 \<le> min_len p"
  shows "d \<noteq> [] \<and> d \<noteq> ''No deadline specified''"
  using assms
proof (induction ps)
  case Nil
  then show ?case by simp
next
  case (Cons p ps)
  show ?case
  proof (cases "re_search True p t")
    case None
    with Cons show ?thesis by simp
  next
    case (Some m)
    obtain i j where m: "m = (i, j)" by (cases m)
    have d: "d = title (slice t i j)" using Cons.prems(1) Some m by simp
    have ij: "i \<le> length t \<and> j \<in> set (ends True p t i)"
      using Some m re_search_match by simp
    then have "i + min_len p \<le> j" "j \<le> length t"
      using ends_min_len ends_le_length by blast+
    moreover have "1 \<le> min_len p" using Cons.prems(2) by simp
    ultimately have "slice t i j \<noteq> []" using slice_nonempty [of i j t] by simp
    then show ?thesis using d title_not_default title_Nil_iff by simp
  qed
qed

lemma extract_deadline_Some:
  "extract_deadline text = Some d \<Longrightarrow> d \<noteq> [] \<and> d \<noteq> ''No deadline specified''"
  unfolding extract_deadline_def using first_date_Some date_patterns_min_len by blast

lemma priority_values: "extract_priority t \<in> {''high'', ''medium'', ''low''}"
  by (simp add: extract_priority_def)

lemma item_priority:
  "item_of_sentence sent = Some item \<Longrightarrow> priority item \<in> {''high'', ''medium'', ''low''}"
  using priority_values [of "strip (sent_text sent)"]
  by (auto simp add: item_of_sentence_def Let_def split: if_splits)

lemma emitted_items:
  "item \<in> set (emitted doc) \<longleftrightarrow> (\<exists>sent \<in> set doc. item_of_sentence sent = Some item)"
proof
  assume "item \<in> set (emitted doc)"
  then obtain sent where "sent \<in> set doc" "item_of_sentence sent \<noteq> None"
    "item = the (item_of_sentence sent)"
    by (auto simp add: emitted_def List.map_filter_def)
  then show "\<exists>sent \<in> set doc. item_of_sentence sent = Some item"
    by auto
next
  assume "\<exists>sent \<in> set doc. item_of_sentence sent = Some item"
  then obtain sent where s: "sent \<in> set doc" "item_of_sentence sent = Some item"
    by blast
  then have "item = (the \<circ> item_of_sentence) sent" "item_of_sentence sent \<noteq> None"
    by simp_all
  with s(1) show "item \<in> set (emitted doc)"
    unfolding emitted_def List.map_filter_def by (metis (mono_tags, lifting) image_eqI mem_Collect_eq set_filter set_map)
qed

lemma filter_priority_stable:
  "filter (\<lambda>x. priority x = p) (sort_key (\<lambda>x. priority_order (priority x)) xs)
     = filter (\<lambda>x. priority x = p) xs"
proof -
  let ?k = "\<lambda>x. priority_order (priority x)"
  have "filter (\<lambda>x. priority x = p) ys
          = filter (\<lambda>x. priority x = p) (filter (\<lambda>x. ?k x = priority_order p) ys)" for ys
    by (induction ys) auto
  then have "filter (\<lambda>x. priority x = p) (sort_key ?k xs)
          = filter (\<lambda>x. priority x = p) (filter (\<lambda>x. ?k x = priority_order p) (sort_key ?k xs))"
    by blast
  also have "\<dots> = filter (\<lambda>x. priority x = p) (filter (\<lambda>x. ?k x = priority_order p) xs)"
    by (simp only: sort_key_stable)
  also have "\<dots> = filter (\<lambda>x. priority x = p) xs"
    by (induction xs) auto
  finally show ?thesis .
qed

text \<open>
  C4. For every input text on which the language pipeline answers, the list that the
  extractor returns has non-decreasing priority rank, every priority is high, medium or
  low (ranks 0, 1, 2), so all high items come before all medium items and those before
  all low items, and the items of one priority appear in sentence order: the sort is
  stable.
\<close>

theorem C4_ordering:
  assumes "nlp text = Inr doc"
  shows "\<exists>items. extract_items nlp text = Inr items
     \<and> sorted (map (\<lambda>x. priority_order (priority x)) items)
     \<and> (\<forall>x \<in> set items. priority x \<in> {''high'', ''medium'', ''low''})
     \<and> (\<forall>p. filter (\<lambda>x. priority x = p) items = filter (\<lambda>x. priority x = p) (emitted doc))"
proof -
  let ?items = "sort_key (\<lambda>x. priority_order (priority x)) (emitted doc)"
  have e: "extract_items nlp text = Inr ?items"
    using assms by (simp add: extract_items_def)
  have s: "sorted (map (\<lambda>x. priority_order (priority x)) ?items)"
    by simp
  have p: "\<forall>x \<in> set ?items. priority x \<in> {''high'', ''medium'', ''low''}"
    using item_priority emitted_items by (metis set_sort)
  have f: "\<forall>p. filter (\<lambda>x. priority x = p) ?items = filter (\<lambda>x. priority x = p) (emitted doc)"
    using filter_priority_stable by blast
  show ?thesis using e s p f by blast
qed

lemma confidence_gate:
  "6 / 10 \<le> calculate_confidence a d True n \<longleftrightarrow> a \<or> (d \<and> 5 \<le> n \<and> n \<le> 30)"
  by (auto simp add: calculate_confidence_def)

lemma confidence_le_1: "calculate_confidence a d v n \<le> 1"
  by (simp add: calculate_confidence_def)

lemma round2_range:
  assumes "6 / 10 \<le> x" "x \<le> 1"
  shows "6 / 10 \<le> round2 x \<and> round2 x \<le> 1"
proof -
  have "round (60 :: rat) \<le> round (x * 100)"
    using assms(1) by (intro round_mono) simp
  moreover have "round (x * 100) \<le> round (100 :: rat)"
    using assms(2) by (intro round_mono) simp
  ultimately have "60 \<le> round (x * 100)" "round (x * 100) \<le> 100"
    by simp_all
  then have "(60 :: rat) \<le> of_int (round (x * 100))" "of_int (round (x * 100)) \<le> (100 :: rat)"
    by linarith+
  then show ?thesis
    by (simp add: round2_def)
qed

lemma item_of_sentence_Some:
  assumes "item_of_sentence sent = Some item"
  shows "((\<exists>a. extract_assignee sent = Some a
              \<and> assignee item = (if a = [] then ''Unassigned'' else a))
          \<or> (deadline item \<noteq> ''No deadline specified''
              \<and> 5 \<le> length (split_ws (acontext item))
              \<and> length (split_ws (acontext item)) \<le> 30))
       \<and> 6 / 10 \<le> confidence item \<and> confidence item \<le> 1"
proof -
  define st where "st = strip (sent_text sent)"
  define cf where "cf = calculate_confidence (extract_assignee sent \<noteq> None)
                          (extract_deadline st \<noteq> None) True (length (split_ws st))"
  have gate: "6 / 10 \<le> cf"
    and item: "item = \<lparr>task = extract_task_description st,
                        assignee = or_default (extract_assignee sent) ''Unassigned'',
                        deadline = or_default (extract_deadline st) ''No deadline specified'',
                        priority = extract_priority st,
                        acontext = st,
                        confidence = round2 cf\<rparr>"
    using assms unfolding item_of_sentence_def st_def [symmetric] Let_def cf_def
    by (auto split: if_splits)
  have conf: "6 / 10 \<le> confidence item \<and> confidence item \<le> 1"
    using round2_range [OF gate] confidence_le_1 by (simp add: item cf_def)
  have "extract_assignee sent \<noteq> None
        \<or> (extract_deadline st \<noteq> None \<and> 5 \<le> length (split_ws st) \<and> length (split_ws st) \<le> 30)"
    using gate unfolding cf_def confidence_gate .
  then show ?thesis
  proof
    assume "extract_assignee sent \<noteq> None"
    then obtain a where a: "extract_assignee sent = Some a" by blast
    then have "assignee item = (if a = [] then ''Unassigned'' else a)"
      by (simp add: item or_default_def)
    with a conf show ?thesis by blast
  next
    assume h: "extract_deadline st \<noteq> None \<and> 5 \<le> length (split_ws st) \<and> length (split_ws st) \<le> 30"
    then obtain d where d: "extract_deadline st = Some d" by blast
    then have "d \<noteq> [] \<and> d \<noteq> ''No deadline specified''"
      by (rule extract_deadline_Some)
    then have "deadline item \<noteq> ''No deadline specified''"
      using d by (simp add: item or_default_def)
    with h conf show ?thesis by (simp add: item)
  qed
qed

text \<open>
  C10, as amended. Every item the extractor emits comes from a sentence for which either
  the assignee was resolved (a PERSON entity or a role phrase was found; the assignee field
  then holds the resolved text, or the default when that text is empty), or both the
  deadline field differs from \<open>No deadline specified\<close> and the sentence has between 5
  and 30 words; and its confidence lies between 0.6 and 1.0. The claim as stated reads
  the resolution off the assignee field, which fails when the resolved text is itself
  \<open>Unassigned\<close>.
\<close>

theorem C10_emitted_lower_bound:
  assumes "nlp text = Inr doc" "extract_items nlp text = Inr items" "item \<in> set items"
  shows "\<exists>sent \<in> set doc. item_of_sentence sent = Some item
     \<and> ((\<exists>a. extract_assignee sent = Some a
              \<and> assignee item = (if a = [] then ''Unassigned'' else a))
          \<or> (deadline item \<noteq> ''No deadline specified''
              \<and> 5 \<le> length (split_ws (acontext item))
              \<and> length (split_ws (acontext item)) \<le> 30))
     \<and> 6 / 10 \<le> confidence item \<and> confidence item \<le> 1"
proof -
  have "items = sort_key (\<lambda>x. priority_order (priority x)) (emitted doc)"
    using assms(1,2) by (simp add: extract_items_def)
  then have "item \<in> set (emitted doc)"
    using assms(3) by simp
  then obtain sent where s: "sent \<in> set doc" "item_of_sentence sent = Some item"
    unfolding emitted_items by blast
  then show ?thesis
    using item_of_sentence_Some [OF s(2)] by blast
qed

lemma three_sentences:
  "extract_items (answering
     [\<lparr>sent_text = ''Bo must go eventually'',
        sent_ents = [\<lparr>ent_text = ''Bo'', ent_label = ''PERSON''\<rparr>]\<rparr>,
      \<lparr>sent_text = ''Al will go asap'',
        sent_ents = [\<lparr>ent_text = ''Al'', ent_label = ''PERSON''\<rparr>]\<rparr>,
      \<lparr>sent_text = ''Cy must go asap'',
        sent_ents = [\<lparr>ent_text = ''Cy'', ent_label = ''PERSON''\<rparr>]\<rparr>]) ''x''
   = Inr [\<lparr>task = ''Al will go asap'', assignee = ''Al'', deadline = ''No deadline specified'',
            priority = ''high'', acontext = ''Al will go asap'', confidence = 6 / 10\<rparr>,
          \<lparr>task = ''Cy must go asap'', assignee = ''Cy'', deadline = ''No deadline specified'',
            priority = ''high'', acontext = ''Cy must go asap'', confidence = 6 / 10\<rparr>,
          \<lparr>task = ''Bo must go eventually'', assignee = ''Bo'',
            deadline = ''No deadline specified'', priority = ''low'',
            acontext = ''Bo must go eventually'', confidence = 6 / 10\<rparr>]"
  by code_simp

theorem C4_ordering_witness:
  "\<exists>items. extract_items (answering
       [\<lparr>sent_text = ''Bo must go eventually'',
          sent_ents = [\<lparr>ent_text = ''Bo'', ent_label = ''PERSON''\<rparr>]\<rparr>,
        \<lparr>sent_text = ''Al will go asap'',
          sent_ents = [\<lparr>ent_text = ''Al'', ent_label = ''PERSON''\<rparr>]\<rparr>,
        \<lparr>sent_text = ''Cy must go asap'',
          sent_ents = [\<lparr>ent_text = ''Cy'', ent_label = ''PERSON''\<rparr>]\<rparr>]) ''x'' = Inr items
     \<and> map assignee items = [''Al'', ''Cy'', ''Bo'']
     \<and> sorted (map (\<lambda>x. priority_order (priority x)) items)"
  using C4_ordering [of "answering
       [\<lparr>sent_text = ''Bo must go eventually'',
          sent_ents = [\<lparr>ent_text = ''Bo'', ent_label = ''PERSON''\<rparr>]\<rparr>,
        \<lparr>sent_text = ''Al will go asap'',
          sent_ents = [\<lparr>ent_text = ''Al'', ent_label = ''PERSON''\<rparr>]\<rparr>,
        \<lparr>sent_text = ''Cy must go asap'',
          sent_ents = [\<lparr>ent_text = ''Cy'', ent_label = ''PERSON''\<rparr>]\<rparr>]" "''x''"
       "[\<lparr>sent_text = ''Bo must go eventually'',
          sent_ents = [\<lparr>ent_text = ''Bo'', ent_label = ''PERSON''\<rparr>]\<rparr>,
        \<lparr>sent_text = ''Al will go asap'',
          sent_ents = [\<lparr>ent_text = ''Al'', ent_label = ''PERSON''\<rparr>]\<rparr>,
        \<lparr>sent_text = ''Cy must go asap'',
          sent_ents = [\<lparr>ent_text = ''Cy'', ent_label = ''PERSON''\<rparr>]\<rparr>]"]
  unfolding three_sentences by (simp add: answering_def)

lemma unassigned_sentence:
  "extract_items (answering
     [\<lparr>sent_text = ''Unassigned will go.'',
        sent_ents = [\<lparr>ent_text = ''Unassigned'', ent_label = ''PERSON''\<rparr>]\<rparr>]) ''Unassigned will go.''
   = Inr [\<lparr>task = ''Unassigned will go.'', assignee = ''Unassigned'',
            deadline = ''No deadline specified'', priority = ''medium'',
            acontext = ''Unassigned will go.'', confidence = 6 / 10\<rparr>]"
  by code_simp

lemma unassigned_words: "length (split_ws ''Unassigned will go.'') = 3"
  by code_simp

theorem C10_counterexample:
  "extract_items (answering
     [\<lparr>sent_text = ''Unassigned will go.'',
        sent_ents = [\<lparr>ent_text = ''Unassigned'', ent_label = ''PERSON''\<rparr>]\<rparr>]) ''Unassigned will go.''
   = Inr [\<lparr>task = ''Unassigned will go.'', assignee = ''Unassigned'',
            deadline = ''No deadline specified'', priority = ''medium'',
            acontext = ''Unassigned will go.'', confidence = 6 / 10\<rparr>]
   \<and> length (split_ws ''Unassigned will go.'') < 5"
  using unassigned_sentence unassigned_words by simp

theorem C10_emitted_lower_bound_witness:
  "\<exists>sent \<in> set [\<lparr>sent_text = ''Unassigned will go.'',
        sent_ents = [\<lparr>ent_text = ''Unassigned'', ent_label = ''PERSON''\<rparr>]\<rparr>].
     item_of_sentence sent = Some \<lparr>task = ''Unassigned will go.'', assignee = ''Unassigned'',
            deadline = ''No deadline specified'', priority = ''medium'',
            acontext = ''Unassigned will go.'', confidence = 6 / 10\<rparr>"
proof -
  let ?doc = "[\<lparr>sent_text = ''Unassigned will go.'',
        sent_ents = [\<lparr>ent_text = ''Unassigned'', ent_label = ''PERSON''\<rparr>]\<rparr>]"
  let ?item = "\<lparr>task = ''Unassigned will go.'', assignee = ''Unassigned'',
            deadline = ''No deadline specified'', priority = ''medium'',
            acontext = ''Unassigned will go.'', confidence = 6 / 10\<rparr>"
  have a: "answering ?doc ''Unassigned will go.'' = Inr ?doc"
    by (simp add: answering_def)
  have b: "?item \<in> set [?item]"
    by simp
  have "\<exists>sent \<in> set ?doc. item_of_sentence sent = Some ?item
     \<and> ((\<exists>a. extract_assignee sent = Some a
              \<and> assignee ?item = (if a = [] then ''Unassigned'' else a))
          \<or> (deadline ?item \<noteq> ''No deadline specified''
              \<and> 5 \<le> length (split_ws (acontext ?item))
              \<and> length (split_ws (acontext ?item)) \<le> 30))
     \<and> 6 / 10 \<le> confidence ?item \<and> confidence ?item \<le> 1"
    by (rule C10_emitted_lower_bound [OF a unassigned_sentence b])
  then show ?thesis
    by blast
qed

section \<open>Properties of the name variations\<close>

lemma split_ws_from_tokens: "t \<in> set (split_ws_from cur s) \<Longrightarrow> t \<noteq> []"
  by (induction s arbitrary: cur) (auto split: if_splits)

lemma split_ws_tokens: "t \<in> set (split_ws s) \<Longrightarrow> t \<noteq> []"
  unfolding split_ws_def by (rule split_ws_from_tokens)

lemma filter_tokens: "filter (\<lambda>p. p \<noteq> []) (split_ws s) = split_ws s"
  using split_ws_tokens by (simp add: filter_id_conv)

text \<open>
  C6, as amended. Provided \<open>list(set(xs))\<close> lists exactly the elements of \<open>xs\<close>,
  each once. The mention tracker generates the lower-cased name alone when the name
  contains no space character; the lower-cased name, first token and initials when it
  contains a space and has a token; and it raises \<open>IndexError\<close> when the name contains
  a space and has no token. The personal insight service generates the lower-cased name,
  the first token when there are at least two tokens, and the initials whenever there is
  a token, so a single-word name also yields its first letter. Every result is free of
  repetitions.
\<close>

theorem C6_name_variations:
  assumes "\<forall>xs. set (ord xs) = set xs \<and> distinct (ord xs)"
  shows "(CHR '' '' \<notin> set u \<longrightarrow>
            (\<exists>vs. mt_generate_name_variations ord u = Inr vs
               \<and> set vs = {lower u} \<and> distinct vs))
     \<and> (CHR '' '' \<in> set u \<and> split_ws u \<noteq> [] \<longrightarrow>
            (\<exists>vs. mt_generate_name_variations ord u = Inr vs
               \<and> set vs = {lower u, lower (hd (split_ws u)), lower (map hd (split_ws u))}
               \<and> distinct vs))
     \<and> (CHR '' '' \<in> set u \<and> split_ws u = [] \<longrightarrow>
            mt_generate_name_variations ord u = Inl IndexError)
     \<and> (1 < length (split_ws u) \<longrightarrow>
            set (pi_generate_name_variations ord u)
              = {lower u, lower (hd (split_ws u)), lower (map hd (split_ws u))})
     \<and> (length (split_ws u) = 1 \<longrightarrow>
            set (pi_generate_name_variations ord u) = {lower u, lower (map hd (split_ws u))})
     \<and> (split_ws u = [] \<longrightarrow> set (pi_generate_name_variations ord u) = {lower u})
     \<and> distinct (pi_generate_name_variations ord u)"
proof (intro conjI impI)
  assume "CHR '' '' \<notin> set u"
  then show "\<exists>vs. mt_generate_name_variations ord u = Inr vs
               \<and> set vs = {lower u} \<and> distinct vs"
    using assms by (simp add: mt_generate_name_variations_def)
next
  assume "CHR '' '' \<in> set u \<and> split_ws u \<noteq> []"
  then obtain w ws where "CHR '' '' \<in> set u" "split_ws u = w # ws"
    by (cases "split_ws u") auto
  then show "\<exists>vs. mt_generate_name_variations ord u = Inr vs
               \<and> set vs = {lower u, lower (hd (split_ws u)), lower (map hd (split_ws u))}
               \<and> distinct vs"
    using assms by (simp add: mt_generate_name_variations_def)
next
  assume "CHR '' '' \<in> set u \<and> split_ws u = []"
  then show "mt_generate_name_variations ord u = Inl IndexError"
    by (simp add: mt_generate_name_variations_def)
next
  assume "1 < length (split_ws u)"
  then show "set (pi_generate_name_variations ord u)
              = {lower u, lower (hd (split_ws u)), lower (map hd (split_ws u))}"
    using assms by (auto simp add: pi_generate_name_variations_def filter_tokens Let_def)
next
  assume "length (split_ws u) = 1"
  then show "set (pi_generate_name_variations ord u) = {lower u, lower (map hd (split_ws u))}"
    using assms by (auto simp add: pi_generate_name_variations_def filter_tokens Let_def)
next
  assume "split_ws u = []"
  then show "set (pi_generate_name_variations ord u) = {lower u}"
    using assms by (simp add: pi_generate_name_variations_def Let_def)
next
  show "distinct (pi_generate_name_variations ord u)"
    using assms by (simp add: pi_generate_name_variations_def Let_def)
qed

text \<open>The claim as stated fails on the single-word name \<open>Bob\<close> in the personal
  insight service, and in the mention tracker on a name of two words separated by a tab,
  which gets no first name and no initials, and on a name that is one space.\<close>

theorem C6_counterexample:
  "pi_generate_name_variations remdups ''Bob'' = [''bob'', ''b'']
   \<and> split_ws (''John'' @ [CHR 0x09] @ ''Smith'') = [''John'', ''Smith'']
   \<and> mt_generate_name_variations remdups (''John'' @ [CHR 0x09] @ ''Smith'')
        = Inr [''john'' @ [CHR 0x09] @ ''smith'']
   \<and> mt_generate_name_variations remdups '' '' = Inl IndexError"
  by code_simp

theorem C6_name_variations_witness:
  "(\<forall>xs. set (remdups xs) = set xs \<and> distinct (remdups xs))
   \<and> (\<exists>vs. mt_generate_name_variations remdups ''Ann Lee'' = Inr vs
          \<and> set vs = {''ann lee'', ''ann'', ''al''} \<and> distinct vs)
   \<and> set (pi_generate_name_variations remdups ''Ann Lee'') = {''ann lee'', ''ann'', ''al''}
   \<and> distinct (pi_generate_name_variations remdups ''Ann Lee'')"
proof -
  have ord: "\<forall>xs. set (remdups xs) = set xs \<and> distinct (remdups xs)"
    by simp
  have s: "split_ws ''Ann Lee'' = [''Ann'', ''Lee'']"
    by code_simp
  have l: "lower ''Ann Lee'' = ''ann lee''" "lower ''Ann'' = ''ann''" "lower ''AL'' = ''al''"
    by code_simp+
  have sp: "CHR '' '' \<in> set ''Ann Lee''"
    by simp
  show ?thesis
    using C6_name_variations [OF ord, of "''Ann Lee''"] s l sp by simp
qed

section \<open>Properties of the personal summary\<close>

text \<open>
  C7. The claim: a personal transcript of fewer than 10 characters gives an empty summary
  without a call to the collaborator, and one of at least 10 characters gives the
  collaborator's summary behind a header naming the user. The code passes the keyword
  \<open>min_length\<close>, which \<open>summarize\<close> does not declare, so the call raises
  \<open>TypeError\<close>, the handler returns the empty string, and the summary is empty for
  every transcript, every user and every summarization service.
\<close>

theorem C7_summary_always_empty:
  "generate_personal_summary svc personal_transcript user_name = []"
  by (simp add: generate_personal_summary_def call_summarize_def summarize_parameters_def)

theorem C7_failing_input:
  "generate_personal_summary (fixed_summary ''Bob sends the report.'')
     ''Bob will send the report.'' ''Bob'' = []
   \<and> \<not> length ''Bob will send the report.'' < 10"
  by (simp add: generate_personal_summary_def call_summarize_def summarize_parameters_def)

section \<open>Properties of the mention tracker report\<close>

lemma split_ws_from_Nil_iff:
  "split_ws_from cur s = [] \<longleftrightarrow> cur = [] \<and> (\<forall>c \<in> set s. is_space c)"
  by (induction s arbitrary: cur) auto

lemma strip_nonspace:
  assumes "strip u \<noteq> []"
  shows "\<exists>c \<in> set (strip u). \<not> is_space c"
proof -
  let ?d = "dropWhile is_space (rev (dropWhile is_space u))"
  have ne: "?d \<noteq> []" using assms by (simp add: strip_def)
  then have "\<not> is_space (hd ?d)" by (rule hd_dropWhile)
  moreover have "hd ?d \<in> set ?d" using ne by simp
  ultimately show ?thesis by (auto simp add: strip_def)
qed

lemma strip_has_token: "CHR '' '' \<in> set (strip u) \<Longrightarrow> split_ws (strip u) \<noteq> []"
proof -
  assume "CHR '' '' \<in> set (strip u)"
  then have "strip u \<noteq> []" by auto
  then obtain c where "c \<in> set (strip u)" "\<not> is_space c"
    using strip_nonspace by blast
  then show ?thesis
    by (auto simp add: split_ws_def split_ws_from_Nil_iff)
qed

lemma mt_generate_strip_total:
  "\<exists>vs. mt_generate_name_variations ord (strip u) = Inr vs"
proof (cases "CHR '' '' \<in> set (strip u)")
  case True
  then obtain w ws where "split_ws (strip u) = w # ws"
    using strip_has_token by (cases "split_ws (strip u)") auto
  with True show ?thesis by (simp add: mt_generate_name_variations_def)
next
  case False
  then show ?thesis by (simp add: mt_generate_name_variations_def)
qed

text \<open>
  C8. \<open>track_mentions\<close> never raises: its result is a report or nothing. It returns
  nothing exactly when the username is empty, the transcript is empty, no mention is
  found, or the body raised; the body can only raise in the task-assignment extraction,
  where the regular expression engine rejects a pattern; otherwise it returns a populated
  report.
\<close>

theorem C8_track_mentions:
  fixes segs :: "'a msegment list" and env :: tracker_env and username :: string
    and full_transcript :: string and diar :: bool
  defines "result \<equiv> track_mentions env username full_transcript segs diar"
    and "body \<equiv> track_body env username full_transcript segs diar"
  shows "(result = None \<longleftrightarrow>
            username = [] \<or> full_transcript = []
            \<or> (\<exists>vs. mt_generate_name_variations (set_order env) (strip username) = Inr vs
                   \<and> find_mentions full_transcript vs = [])
            \<or> (\<exists>e. body = Inl e))
     \<and> ((\<exists>e. body = Inl e) \<longleftrightarrow>
            username \<noteq> [] \<and> full_transcript \<noteq> []
            \<and> (\<exists>vs. mt_generate_name_variations (set_order env) (strip username) = Inr vs
                   \<and> find_mentions full_transcript vs \<noteq> []
                   \<and> (\<exists>e. extract_task_assignments (group1_matches env)
                              (extract_sentences_with_mentions full_transcript
                                 (find_mentions full_transcript vs))
                              (strip username) vs = Inl e)))
     \<and> (\<forall>r. result = Some r \<longrightarrow>
            rp_username r = strip username \<and> rp_mentions r \<noteq> []
            \<and> mention_count r = length (rp_mentions r)
            \<and> sentence_count r = length (sentences_with_mentions r)
            \<and> highlight_transcript r
                  = build_highlighted_transcript full_transcript (rp_mentions r)
            \<and> tracking_status r = ''success'')"
proof -
  obtain vs where vs: "mt_generate_name_variations (set_order env) (strip username) = Inr vs"
    using mt_generate_strip_total by blast
  let ?found = "find_mentions full_transcript vs"
  let ?tasks = "extract_task_assignments (group1_matches env)
                  (extract_sentences_with_mentions full_transcript ?found) (strip username) vs"
  consider (empty) "username = [] \<or> full_transcript = []"
    | (nomention) "username \<noteq> []" "full_transcript \<noteq> []" "?found = []"
    | (raised) e where "username \<noteq> []" "full_transcript \<noteq> []" "?found \<noteq> []" "?tasks = Inl e"
    | (report) ts where "username \<noteq> []" "full_transcript \<noteq> []" "?found \<noteq> []" "?tasks = Inr ts"
    by (cases ?tasks) auto
  then show ?thesis
  proof cases
    case empty
    then have "body = Inr None"
      by (auto simp add: body_def track_body_def)
    then show ?thesis
      using empty by (auto simp add: result_def track_mentions_def body_def)
  next
    case nomention
    then have "body = Inr None"
      by (simp add: body_def track_body_def vs Let_def)
    then show ?thesis
      using nomention vs by (auto simp add: result_def track_mentions_def body_def)
  next
    case raised
    then have "body = Inl e"
      by (simp add: body_def track_body_def vs Let_def)
    then show ?thesis
      using raised vs by (auto simp add: result_def track_mentions_def body_def)
  next
    case report
    then have "\<exists>r. body = Inr (Some r) \<and> rp_username r = strip username
        \<and> rp_mentions r = ?found \<and> mention_count r = length ?found
        \<and> sentence_count r = length (sentences_with_mentions r)
        \<and> highlight_transcript r = build_highlighted_transcript full_transcript ?found
        \<and> tracking_status r = ''success''"
      by (simp add: body_def track_body_def vs Let_def)
    then show ?thesis
      using report vs by (auto simp add: result_def track_mentions_def body_def)
  qed
qed

lemma track_depends:
  assumes "set_order env1 = set_order env2" "group1_matches env1 = group1_matches env2"
  shows "map_option (tracked_at_update (\<lambda>_. [])) (track_mentions env1 u t segs d)
       = map_option (tracked_at_update (\<lambda>_. [])) (track_mentions env2 u t segs d)"
  using assms
  by (auto simp add: track_mentions_def track_body_def Let_def split: sum.splits)

lemma track_clock:
  "track_mentions env u t segs d = Some r \<Longrightarrow> tracked_at r = now_isoformat env"
  by (auto simp add: track_mentions_def track_body_def Let_def split: sum.splits if_splits)

text \<open>
  C5, as amended. Two runs of the action item extraction on the same text, with the
  same output of the language pipeline, return the same list. Two runs of the mention
  tracking on the same inputs, with the same listing order of sets and the same results
  of the regular expression engine, return reports that agree in every field except
  \<open>tracked_at\<close>, which holds the reading of the clock at each run.
\<close>

theorem C5_determinism:
  "(nlp1 text = nlp2 text \<longrightarrow> extract_items nlp1 text = extract_items nlp2 text)
   \<and> (set_order env1 = set_order env2 \<and> group1_matches env1 = group1_matches env2 \<longrightarrow>
        map_option (tracked_at_update (\<lambda>_. [])) (track_mentions env1 u t segs d)
        = map_option (tracked_at_update (\<lambda>_. [])) (track_mentions env2 u t segs d))
   \<and> (\<forall>r. track_mentions env1 u t segs d = Some r \<longrightarrow> tracked_at r = now_isoformat env1)"
  using track_depends [of env1 env2 u t segs d] track_clock [of env1 u t segs d]
  by (auto simp add: extract_items_def)

lemma al_report:
  "track_mentions (clock_env ''2024-01-01T10:00:00'') ''Al'' ''Hi Al.''
     ([] :: int msegment list) False
   = Some \<lparr>rp_username = ''Al'',
            highlight_transcript = ''Hi [MENTION]Al[/MENTION].'',
            mention_count = 1,
            rp_mentions = [\<lparr>variation = ''al'', matched_text = ''Al'', position = 3,
                             end_position = 5, mcontext = ''Hi Al.''\<rparr>],
            sentences_with_mentions =
              [\<lparr>sg_sentence = ''Hi Al.'', sg_position = 0, sg_mention_count = 1,
                 sg_mentions = [\<lparr>sm_text = ''Al'', sm_variation = ''al'',
                                  position_in_sentence = 3\<rparr>]\<rparr>],
            sentence_count = 1, assigned_tasks = [], speaker_mentions = [],
            tracked_at = ''2024-01-01T10:00:00'', tracking_status = ''success''\<rparr>"
  by code_simp

theorem C8_track_mentions_witness:
  "track_mentions (clock_env ''2024-01-01T10:00:00'') ''Al'' ''Hi Al.''
     ([] :: int msegment list) False \<noteq> None
   \<and> ''Al'' \<noteq> [] \<and> ''Hi Al.'' \<noteq> []
   \<and> \<not> (\<exists>e. track_body (clock_env ''2024-01-01T10:00:00'') ''Al'' ''Hi Al.''
              ([] :: int msegment list) False = Inl e)"
  using C8_track_mentions [of "clock_env ''2024-01-01T10:00:00''" "''Al''" "''Hi Al.''"
      "[] :: int msegment list" False]
  unfolding al_report by simp

text \<open>The claim as stated fails on the field \<open>tracked_at\<close>: the same inputs at two
  readings of the clock give two different reports.\<close>

theorem C5_counterexample:
  "track_mentions (clock_env ''2024-01-01T10:00:00'') ''Al'' ''Hi Al.''
     ([] :: int msegment list) False
   \<noteq> track_mentions (clock_env ''2024-01-01T10:00:01'') ''Al'' ''Hi Al.''
     ([] :: int msegment list) False"
proof
  assume eq: "track_mentions (clock_env ''2024-01-01T10:00:00'') ''Al'' ''Hi Al.''
     ([] :: int msegment list) False
   = track_mentions (clock_env ''2024-01-01T10:00:01'') ''Al'' ''Hi Al.''
     ([] :: int msegment list) False"
  obtain r where r: "track_mentions (clock_env ''2024-01-01T10:00:00'') ''Al'' ''Hi Al.''
     ([] :: int msegment list) False = Some r" "tracked_at r = ''2024-01-01T10:00:00''"
    using al_report by simp
  have "track_mentions (clock_env ''2024-01-01T10:00:01'') ''Al'' ''Hi Al.''
     ([] :: int msegment list) False = Some r"
    using r(1) eq by simp
  then have "tracked_at r = now_isoformat (clock_env ''2024-01-01T10:00:01'')"
    by (rule track_clock)
  then show False
    using r(2) by (simp add: clock_env_def)
qed

theorem C5_determinism_witness:
  "map_option (tracked_at_update (\<lambda>_. []))
     (track_mentions (clock_env ''2024-01-01T10:00:00'') ''Al'' ''Hi Al.''
        ([] :: int msegment list) False)
   = map_option (tracked_at_update (\<lambda>_. []))
     (track_mentions (clock_env ''2024-01-01T10:00:01'') ''Al'' ''Hi Al.''
        ([] :: int msegment list) False)
   \<and> (\<exists>r. track_mentions (clock_env ''2024-01-01T10:00:00'') ''Al'' ''Hi Al.''
        ([] :: int msegment list) False = Some r \<and> tracked_at r = ''2024-01-01T10:00:00'')"
proof (rule conjI)
  have same: "set_order (clock_env ''2024-01-01T10:00:00'')
                = set_order (clock_env ''2024-01-01T10:00:01'')
      \<and> group1_matches (clock_env ''2024-01-01T10:00:00'')
                = group1_matches (clock_env ''2024-01-01T10:00:01'')"
    by (simp add: clock_env_def)
  note inst = C5_determinism [of "answering []" "[]" "answering []"
      "clock_env ''2024-01-01T10:00:00''" "clock_env ''2024-01-01T10:00:01''"
      "''Al''" "''Hi Al.''" "[] :: int msegment list" False]
  from inst have "set_order (clock_env ''2024-01-01T10:00:00'')
                = set_order (clock_env ''2024-01-01T10:00:01'')
      \<and> group1_matches (clock_env ''2024-01-01T10:00:00'')
                = group1_matches (clock_env ''2024-01-01T10:00:01'') \<longrightarrow>
    map_option (tracked_at_update (\<lambda>_. []))
     (track_mentions (clock_env ''2024-01-01T10:00:00'') ''Al'' ''Hi Al.''
        ([] :: int msegment list) False)
   = map_option (tracked_at_update (\<lambda>_. []))
     (track_mentions (clock_env ''2024-01-01T10:00:01'') ''Al'' ''Hi Al.''
        ([] :: int msegment list) False)"
    by (elim conjE)
  from this same show "map_option (tracked_at_update (\<lambda>_. []))
     (track_mentions (clock_env ''2024-01-01T10:00:00'') ''Al'' ''Hi Al.''
        ([] :: int msegment list) False)
   = map_option (tracked_at_update (\<lambda>_. []))
     (track_mentions (clock_env ''2024-01-01T10:00:01'') ''Al'' ''Hi Al.''
        ([] :: int msegment list) False)"
    by (rule mp)
next
  show "\<exists>r. track_mentions (clock_env ''2024-01-01T10:00:00'') ''Al'' ''Hi Al.''
        ([] :: int msegment list) False = Some r \<and> tracked_at r = ''2024-01-01T10:00:00''"
    using al_report by simp
qed

end
